theory Spec2Isabelle
  imports Complex_Main
begin

text \<open>
  The matching and ranking pipeline of the quick search in \<open>search.ts\<close>:
  \<open>fetchIndex\<close> with \<open>_indexCache\<close>, \<open>fuzzyMatch\<close> with \<open>_fuzzyCache\<close>,
  \<open>exactMatch\<close>, and \<open>search\<close> with \<open>_matchCache\<close>. The three module-level caches
  are the fields of a state that every function takes and returns. What comes from
  outside the module is a parameter: the value of the search field, the responses of
  the network, the scores of the \<open>FuzzySet\<close> library, and two tables of the engine,
  the lower-casing of strings and the properties of the built-in functions. The results
  element of the page is kept as the list of sections that \<open>search\<close> has rendered last.
\<close>

section \<open>Strings\<close>

text \<open>
  Strings are lists of characters. \<open>String.prototype.toLowerCase\<close> follows the case
  tables of the engine, which are not part of the program: \<open>lower\<close> stands for it,
  and nothing is assumed of it but that the empty string stays empty. On ASCII text it
  is \<open>ascii_lower\<close>, which maps the letters \<open>A\<close> to \<open>Z\<close> to \<open>a\<close> to \<open>z\<close>; the
  examples use that.
\<close>

definition lower_char :: "char \<Rightarrow> char" where
  "lower_char c =
     (case map_of (zip ''ABCDEFGHIJKLMNOPQRSTUVWXYZ'' ''abcdefghijklmnopqrstuvwxyz'') c of
        Some d \<Rightarrow> d
      | None \<Rightarrow> c)"

definition ascii_lower :: "string \<Rightarrow> string" where
  "ascii_lower s = map lower_char s"

definition toLowerCase :: "(string \<Rightarrow> string) \<Rightarrow> string \<Rightarrow> string" where
  "toLowerCase lower s = (if s = [] then [] else lower s)"

fun startsWith :: "string \<Rightarrow> string \<Rightarrow> bool" where
  "startsWith s [] = True"
| "startsWith [] (c # p) = False"
| "startsWith (d # s) (c # p) = (d = c \<and> startsWith s p)"

fun includes_str :: "string \<Rightarrow> string \<Rightarrow> bool" where
  "includes_str [] p = (p = [])"
| "includes_str (d # s) p = (startsWith (d # s) p \<or> includes_str s p)"

definition exactMatch :: "(string \<Rightarrow> string) \<Rightarrow> string \<Rightarrow> string \<Rightarrow> bool" where
  "exactMatch lower a b = includes_str (toLowerCase lower a) (toLowerCase lower b)"

section \<open>Search entries\<close>

text \<open>The \<open>SearchResult\<close> interface; \<open>page\<close> is the optional field.\<close>

datatype result_type = Page | Heading | Inline

record SearchResult =
  url :: string
  type :: result_type
  section' :: string
  page :: "string option"
  text' :: string

section \<open>Plain objects used as dictionaries\<close>

text \<open>
  \<open>_fuzzyCache\<close>, its rows and the \<open>groups\<close> accumulator are object literals \<open>{}\<close>
  indexed by arbitrary strings. Such an object is modelled by the list of its own
  properties in creation order. Two rules of the language are visible through the way
  the program uses them:

  \<^item> a property read \<open>obj[k]\<close> that finds no own property continues in
    \<open>Object.prototype\<close>, so for the twelve names below it yields a built-in function
    or object (truthy, and not \<open>undefined\<close>) instead of \<open>undefined\<close>;
  \<^item> \<open>for (k in obj)\<close> visits the keys that are array indices first, in ascending
    numeric order, and then the remaining keys in creation order.
\<close>

type_synonym 'v object = "(string \<times> 'v) list"

definition proto_keys :: "string list" where
  "proto_keys =
     [''constructor'', ''__proto__'', ''hasOwnProperty'', ''isPrototypeOf'',
      ''propertyIsEnumerable'', ''toLocaleString'', ''toString'', ''valueOf'',
      ''__defineGetter__'', ''__defineSetter__'', ''__lookupGetter__'',
      ''__lookupSetter__'']"

definition inherited :: "string \<Rightarrow> bool" where
  "inherited k = (k \<in> set proto_keys)"

datatype 'v property = Undefined | Own 'v | Inherited

definition get_property :: "'v object \<Rightarrow> string \<Rightarrow> 'v property" where
  "get_property obj k =
     (case map_of obj k of
        Some v \<Rightarrow> Own v
      | None \<Rightarrow> if inherited k then Inherited else Undefined)"

text \<open>
  \<open>obj[k] = v\<close>: an existing own property keeps its place, a new one is created last.
  The program assigns only after a read of the same key gave \<open>undefined\<close> or an own
  value, so never to one of the inherited names.
\<close>

fun set_property :: "'v object \<Rightarrow> string \<Rightarrow> 'v \<Rightarrow> 'v object" where
  "set_property [] k v = [(k, v)]"
| "set_property (p # ps) k v =
     (if fst p = k then (k, v) # ps else p # set_property ps k v)"

definition digit_of :: "char \<Rightarrow> nat option" where
  "digit_of c = map_of (zip ''0123456789'' [0, 1, 2, 3, 4, 5, 6, 7, 8, 9]) c"

fun digits_value :: "nat \<Rightarrow> string \<Rightarrow> nat option" where
  "digits_value acc [] = Some acc"
| "digits_value acc (c # cs) =
     (case digit_of c of
        None \<Rightarrow> None
      | Some d \<Rightarrow> digits_value (10 * acc + d) cs)"

text \<open>
  A key is an array index when it is the canonical decimal form of an integer below
  \<open>2\<^sup>3\<^sup>2 - 1\<close>: digits only, no leading zero.
\<close>

definition array_index :: "string \<Rightarrow> nat option" where
  "array_index k =
     (case k of
        [] \<Rightarrow> None
      | c # cs \<Rightarrow>
          if c = CHR ''0'' \<and> cs \<noteq> [] then None
          else (case digits_value 0 k of
                  None \<Rightarrow> None
                | Some n \<Rightarrow> if n < 4294967295 then Some n else None))"

definition is_index :: "string \<Rightarrow> bool" where
  "is_index k = (array_index k \<noteq> None)"

definition index_value :: "string \<Rightarrow> nat" where
  "index_value k = (case array_index k of Some n \<Rightarrow> n | None \<Rightarrow> 0)"

definition for_in :: "'v object \<Rightarrow> (string \<times> 'v) list" where
  "for_in obj =
     sort_key (\<lambda>p. index_value (fst p)) (filter (\<lambda>p. is_index (fst p)) obj)
     @ filter (\<lambda>p. \<not> is_index (fst p)) obj"

section \<open>The similarity cache\<close>

text \<open>
  \<open>FuzzySet\<close> is an imported library: \<open>fuzzyset a b\<close> stands for the number
  \<open>fuzzy.get(b, [[0]])[0][0]\<close> of a set that holds only \<open>a\<close>, the best score or the
  default \<open>0\<close>. Scores are finite doubles, hence rationals; the program only tests them
  against zero and takes the sign of a difference.

  \<open>fuzzyMatch\<close> is typed to return a number, but it returns whatever the read
  \<open>_fuzzyCache[a][b]\<close> finds, and for an inherited name \<open>b\<close> that is a member of
  \<open>Object.prototype\<close>. \<open>BuiltinObject\<close> stands for any value that is truthy and
  not a number (a function, an object, a non-empty string); \<open>Null\<close> is \<open>null\<close>, which
  is falsy and counts as \<open>0\<close> in a subtraction.
\<close>

datatype jsvalue = Number rat | Null | BuiltinObject

fun truthy :: "jsvalue \<Rightarrow> bool" where
  "truthy (Number x) = (x \<noteq> 0)"
| "truthy Null = False"
| "truthy BuiltinObject = True"

text \<open>What a call throws: the rejection of \<open>fetch\<close> or of \<open>res.json()\<close>, or a \<open>TypeError\<close>.\<close>

datatype error = FetchError | TypeError

type_synonym fuzzy_cache = "rat object object"

text \<open>
  The second half of \<open>fuzzyMatch\<close>, once \<open>_fuzzyCache[a]\<close> is the own property \<open>row\<close>.
  The row is shared with the cache, so the write to it is a write to the cache.
\<close>

definition fuzzyMatch_row ::
  "(string \<Rightarrow> string \<Rightarrow> rat) \<Rightarrow> string \<Rightarrow> string \<Rightarrow> rat object \<Rightarrow> fuzzy_cache
     \<Rightarrow> jsvalue \<times> fuzzy_cache" where
  "fuzzyMatch_row fuzzyset a b row cache =
     (case get_property row b of
        Undefined \<Rightarrow>
          (Number (fuzzyset a b), set_property cache a (set_property row b (fuzzyset a b)))
      | Own v \<Rightarrow> (Number v, cache)
      | Inherited \<Rightarrow> (BuiltinObject, cache))"

text \<open>
  When \<open>a\<close> is an inherited name and not an own property of the cache,
  \<open>_fuzzyCache[a]\<close> is a member of \<open>Object.prototype\<close>: truthy, so no row is created,
  and the function reads and writes the properties of that built-in object.

  For eleven of the names the member is a built-in function. What such a function holds
  before the program writes to it (\<open>length\<close>, \<open>name\<close>, \<open>call\<close>, and so on) is a table
  of the engine: \<open>builtin a b\<close> is the read of the property \<open>b\<close> of the function that
  \<open>Object.prototype\<close> holds under \<open>a\<close>. The read finds a value, or \<open>undefined\<close>, or
  it throws a \<open>TypeError\<close>, as the accessors \<open>caller\<close> and \<open>arguments\<close> of
  \<open>Function.prototype\<close> do. When it finds \<open>undefined\<close> the score is computed and
  stored on the function; \<open>fns\<close> holds what the program has stored there, by function.
\<close>

datatype builtin_read = Absent | Present jsvalue | Raises

definition fuzzyMatch_function ::
  "(string \<Rightarrow> string \<Rightarrow> rat) \<Rightarrow> (string \<Rightarrow> string \<Rightarrow> builtin_read) \<Rightarrow> string \<Rightarrow> string
     \<Rightarrow> rat object object \<Rightarrow> (error + jsvalue) \<times> rat object object" where
  "fuzzyMatch_function fuzzyset builtin a b fns =
     (let written = (case map_of fns a of Some props \<Rightarrow> props | None \<Rightarrow> []) in
      case map_of written b of
        Some v \<Rightarrow> (Inr (Number v), fns)
      | None \<Rightarrow>
          (case builtin a b of
             Present u \<Rightarrow> (Inr u, fns)
           | Raises \<Rightarrow> (Inl TypeError, fns)
           | Absent \<Rightarrow>
               (Inr (Number (fuzzyset a b)),
                set_property fns a (set_property written b (fuzzyset a b)))))"

text \<open>
  For \<open>__proto__\<close> the member is \<open>Object.prototype\<close> itself. Its property \<open>b\<close> is a
  built-in function for eleven of the inherited names and \<open>null\<close> for \<open>__proto__\<close>;
  either is returned as it is. For any other \<open>b\<close> it is \<open>undefined\<close>, and the score is
  stored on \<open>Object.prototype\<close>, where every object of the page inherits it: lookups and
  \<open>for ... in\<close> loops change their meaning from then on. That one run is outside this
  model, and the result is \<open>None\<close>.

  In every other case the result is \<open>Some\<close>: the value returned, or the error thrown,
  with the two caches as the call leaves them.
\<close>

definition fuzzyMatch ::
  "(string \<Rightarrow> string \<Rightarrow> rat) \<Rightarrow> (string \<Rightarrow> string \<Rightarrow> builtin_read) \<Rightarrow> string \<Rightarrow> string
     \<Rightarrow> fuzzy_cache \<times> rat object object
     \<Rightarrow> ((error + jsvalue) \<times> fuzzy_cache \<times> rat object object) option" where
  "fuzzyMatch fuzzyset builtin a b store =
     (case store of (cache, fns) \<Rightarrow>
        (case get_property cache a of
           Undefined \<Rightarrow>
             (case fuzzyMatch_row fuzzyset a b [] (set_property cache a []) of
                (v, cache') \<Rightarrow> Some (Inr v, cache', fns))
         | Own row \<Rightarrow>
             (case fuzzyMatch_row fuzzyset a b row cache of
                (v, cache') \<Rightarrow> Some (Inr v, cache', fns))
         | Inherited \<Rightarrow>
             if a = ''__proto__''
             then (if inherited b
                   then Some (Inr (if b = ''__proto__'' then Null else BuiltinObject), cache, fns)
                   else None)
             else (case fuzzyMatch_function fuzzyset builtin a b fns of
                     (r, fns') \<Rightarrow> Some (r, cache, fns'))))"

section \<open>The index store\<close>

text \<open>
  The network is a parameter: \<open>net n\<close> is what the \<open>n\<close>-th request for
  \<open>/search-index.json\<close> brings back. \<open>requests\<close> counts the calls of \<open>fetch\<close>;
  \<open>functionProps\<close> is the \<open>fns\<close> of \<open>fuzzyMatch\<close>; \<open>resultsView\<close> is the content of
  the results element, one pair per rendered section.
\<close>

datatype response = NetworkError | Malformed | Json "SearchResult list"

record state =
  indexCache :: "SearchResult list"
  fuzzyCache :: fuzzy_cache
  functionProps :: "rat object object"
  matchCache_query :: string
  matchCache_results :: "SearchResult list"
  requests :: nat
  resultsView :: "(string \<times> SearchResult list) list"

text \<open>
  How a call ends: it returns a value, it throws (an \<open>async\<close> function rejects its
  promise), or it leaves the model (see \<open>fuzzyMatch\<close>). The state is the one the call
  leaves behind.
\<close>

datatype 'a outcome = Return 'a state | Throw error state | Stuck

text \<open>
  \<open>fetchIndex\<close> up to its \<open>await\<close>: either it returns the cache, or it has issued
  request number \<open>n\<close> and is suspended.
\<close>

definition fetchIndex_start :: "state \<Rightarrow> (SearchResult list + nat) \<times> state" where
  "fetchIndex_start st =
     (if indexCache st \<noteq> [] then (Inl (indexCache st), st)
      else (Inr (requests st), st\<lparr>requests := Suc (requests st)\<rparr>))"

text \<open>\<open>fetchIndex\<close> from the \<open>await\<close> on, when the response has arrived.\<close>

definition fetchIndex_resume :: "response \<Rightarrow> state \<Rightarrow> SearchResult list outcome" where
  "fetchIndex_resume resp st =
     (case resp of
        Json entries \<Rightarrow>
          Return (indexCache st @ entries) (st\<lparr>indexCache := indexCache st @ entries\<rparr>)
      | NetworkError \<Rightarrow> Throw FetchError st
      | Malformed \<Rightarrow> Throw FetchError st)"

text \<open>A call that nothing interleaves with.\<close>

definition fetchIndex :: "(nat \<Rightarrow> response) \<Rightarrow> state \<Rightarrow> SearchResult list outcome" where
  "fetchIndex net st =
     (case fetchIndex_start st of
        (Inl cached, st') \<Rightarrow> Return cached st'
      | (Inr n, st') \<Rightarrow> fetchIndex_resume (net n) st')"

text \<open>
  Calls of \<open>fetchIndex\<close> that overlap: every call is a task, and a schedule names the
  task that runs its next piece. A piece runs from one \<open>await\<close> to the next without
  interruption, as the event loop has it. \<open>Finished\<close> holds the content of the
  returned array at the moment of the return.
\<close>

datatype task = Fresh | Awaiting nat | Finished "SearchResult list" | Failed

definition task_step :: "(nat \<Rightarrow> response) \<Rightarrow> task \<Rightarrow> state \<Rightarrow> task \<times> state" where
  "task_step net t st =
     (case t of
        Fresh \<Rightarrow>
          (case fetchIndex_start st of
             (Inl cached, st') \<Rightarrow> (Finished cached, st')
           | (Inr n, st') \<Rightarrow> (Awaiting n, st'))
      | Awaiting n \<Rightarrow>
          (case fetchIndex_resume (net n) st of
             Return entries st' \<Rightarrow> (Finished entries, st')
           | Throw e st' \<Rightarrow> (Failed, st')
           | Stuck \<Rightarrow> (Failed, st))
      | Finished entries \<Rightarrow> (Finished entries, st)
      | Failed \<Rightarrow> (Failed, st))"

fun run :: "(nat \<Rightarrow> response) \<Rightarrow> nat list \<Rightarrow> task list \<times> state \<Rightarrow> task list \<times> state" where
  "run net [] cfg = cfg"
| "run net (i # sched) (ts, st) =
     (if i < length ts
      then (case task_step net (ts ! i) st of (t', st') \<Rightarrow> run net sched (ts[i := t'], st'))
      else run net sched (ts, st))"

section \<open>The query matcher\<close>

text \<open>
  The constant \<open>index\<close> of \<open>search\<close>: the candidate pool. The session cache is used
  when it holds results, its query is not empty and the new query starts with it.
\<close>

definition search_index ::
  "(nat \<Rightarrow> response) \<Rightarrow> string \<Rightarrow> state \<Rightarrow> SearchResult list outcome" where
  "search_index net query st =
     (if query \<noteq> []
      then (if matchCache_results st \<noteq> [] \<and> matchCache_query st \<noteq> []
               \<and> startsWith query (matchCache_query st)
            then Return (matchCache_results st) st
            else fetchIndex net st)
      else (case fetchIndex net st of
              Return entries st' \<Rightarrow> Return (filter (\<lambda>r. type r = Page) entries) st'
            | Throw e st' \<Rightarrow> Throw e st'
            | Stuck \<Rightarrow> Stuck))"

text \<open>
  \<open>.filter((result) => fuzzyMatch(result.text, query))\<close>, left to right. A call that
  throws ends the filter.
\<close>

fun filter_fuzzyMatch ::
  "(string \<Rightarrow> string \<Rightarrow> rat) \<Rightarrow> (string \<Rightarrow> string \<Rightarrow> builtin_read) \<Rightarrow> string
     \<Rightarrow> SearchResult list \<Rightarrow> fuzzy_cache \<times> rat object object
     \<Rightarrow> ((error + SearchResult list) \<times> fuzzy_cache \<times> rat object object) option" where
  "filter_fuzzyMatch fuzzyset builtin query [] store = Some (Inr [], store)"
| "filter_fuzzyMatch fuzzyset builtin query (r # rs) store =
     (case fuzzyMatch fuzzyset builtin (text' r) query store of
        None \<Rightarrow> None
      | Some (Inl e, store') \<Rightarrow> Some (Inl e, store')
      | Some (Inr v, store') \<Rightarrow>
          (case filter_fuzzyMatch fuzzyset builtin query rs store' of
             None \<Rightarrow> None
           | Some (Inl e, store'') \<Rightarrow> Some (Inl e, store'')
           | Some (Inr kept, store'') \<Rightarrow> Some (Inr (if truthy v then r # kept else kept), store'')))"

text \<open>
  The comparator \<open>(a, b) => fuzzyMatch(a.text, query) - fuzzyMatch(b.text, query)\<close>.
  The difference of two numbers is a number, with \<open>null\<close> counting as \<open>0\<close>; with a
  built-in object on either side it is \<open>NaN\<close>, written \<open>None\<close>. The comparator runs on
  entries the filter has just scored, so it only reads the cache and returns (lemma
  \<open>fuzzyMatch_again\<close> below).
\<close>

fun js_minus :: "jsvalue \<Rightarrow> jsvalue \<Rightarrow> rat option" where
  "js_minus (Number x) (Number y) = Some (x - y)"
| "js_minus (Number x) Null = Some x"
| "js_minus Null (Number y) = Some (- y)"
| "js_minus Null Null = Some 0"
| "js_minus BuiltinObject v = None"
| "js_minus (Number x) BuiltinObject = None"
| "js_minus Null BuiltinObject = None"

definition compare_fuzzyMatch ::
  "(string \<Rightarrow> string \<Rightarrow> rat) \<Rightarrow> (string \<Rightarrow> string \<Rightarrow> builtin_read) \<Rightarrow> string
     \<Rightarrow> fuzzy_cache \<times> rat object object \<Rightarrow> SearchResult \<Rightarrow> SearchResult \<Rightarrow> rat option" where
  "compare_fuzzyMatch fuzzyset builtin query store x y =
     (case fuzzyMatch fuzzyset builtin (text' x) query store of
        Some (Inr u, s1) \<Rightarrow>
          (case fuzzyMatch fuzzyset builtin (text' y) query store of
             Some (Inr v, s2) \<Rightarrow> js_minus u v
           | _ \<Rightarrow> None)
      | _ \<Rightarrow> None)"

text \<open>
  \<open>Array.prototype.sort\<close> with a comparator is stable: \<open>x\<close> moves behind \<open>y\<close> only
  when the comparator gives a positive number, and \<open>NaN\<close> counts as zero.
\<close>

fun insert_by :: "('a \<Rightarrow> 'a \<Rightarrow> rat option) \<Rightarrow> 'a \<Rightarrow> 'a list \<Rightarrow> 'a list" where
  "insert_by cmp x [] = [x]"
| "insert_by cmp x (y # ys) =
     (case cmp x y of
        None \<Rightarrow> x # y # ys
      | Some d \<Rightarrow> if 0 < d then y # insert_by cmp x ys else x # y # ys)"

definition sort_by :: "('a \<Rightarrow> 'a \<Rightarrow> rat option) \<Rightarrow> 'a list \<Rightarrow> 'a list" where
  "sort_by cmp xs = foldr (insert_by cmp) xs []"

section \<open>The result grouper\<close>

text \<open>
  The \<open>reduce\<close> over \<open>matches\<close>. An own property of \<open>groups\<close> is an array, which is
  truthy even when empty. For an inherited name \<open>groups[result.section]\<close> is a built-in
  function or object: truthy, so no array is created, and without a \<open>push\<close> method, so
  the call throws a \<open>TypeError\<close>.
\<close>

fun reduce_groups ::
  "SearchResult list \<Rightarrow> SearchResult list object \<Rightarrow> error + SearchResult list object" where
  "reduce_groups [] groups = Inr groups"
| "reduce_groups (r # rs) groups =
     (case get_property groups (section' r) of
        Undefined \<Rightarrow> reduce_groups rs (set_property groups (section' r) [r])
      | Own members \<Rightarrow> reduce_groups rs (set_property groups (section' r) (members @ [r]))
      | Inherited \<Rightarrow> Inl TypeError)"

section \<open>Search\<close>

text \<open>
  \<open>search\<close> for the value \<open>input\<close> of the search field, as a call that nothing
  interleaves with. \<open>exact.includes(result)\<close>
  compares object identities; an entry of the pool is in \<open>exact\<close> exactly when its own
  text matches, so comparing the records gives the same list.
\<close>

definition search ::
  "(string \<Rightarrow> string) \<Rightarrow> (string \<Rightarrow> string \<Rightarrow> rat) \<Rightarrow> (string \<Rightarrow> string \<Rightarrow> builtin_read)
     \<Rightarrow> (nat \<Rightarrow> response) \<Rightarrow> string \<Rightarrow> state \<Rightarrow> unit outcome" where
  "search lower fuzzyset builtin net input st =
     (let query = toLowerCase lower input in
      case search_index net query st of
        Stuck \<Rightarrow> Stuck
      | Throw e st1 \<Rightarrow> Throw e st1
      | Return index st1 \<Rightarrow>
          (let exact = filter (\<lambda>r. exactMatch lower (text' r) query) index in
           case filter_fuzzyMatch fuzzyset builtin query
                  (filter (\<lambda>r. r \<notin> set exact) index) (fuzzyCache st1, functionProps st1) of
             None \<Rightarrow> Stuck
           | Some (Inl e, cache, fns) \<Rightarrow> Throw e (st1\<lparr>fuzzyCache := cache, functionProps := fns\<rparr>)
           | Some (Inr kept, cache, fns) \<Rightarrow>
               (let fuzzy = sort_by (compare_fuzzyMatch fuzzyset builtin query (cache, fns)) kept;
                    matches = exact @ fuzzy;
                    st2 = st1\<lparr>fuzzyCache := cache, functionProps := fns\<rparr>
                in case reduce_groups matches [] of
                     Inl e \<Rightarrow> Throw e st2
                   | Inr grouped \<Rightarrow>
                       Return () (st2\<lparr>matchCache_query := query,
                                      matchCache_results := matches,
                                      resultsView := for_in grouped\<rparr>))))"

text \<open>The state when the module has been loaded.\<close>

definition initial :: state where
  "initial =
     \<lparr>indexCache = [], fuzzyCache = [], functionProps = [], matchCache_query = [],
      matchCache_results = [], requests = 0, resultsView = []\<rparr>"

section \<open>Notions used in the statements\<close>

text \<open>
  What \<open>fuzzyMatch a b\<close> returns from given caches, as a value: the stored number
  when the pair is stored, a built-in's own value where the read finds one, and the
  library's score otherwise. \<open>scorable\<close> says that the call returns a value: it
  excludes the one run that \<open>fuzzyMatch\<close> leaves out and the reads that throw.
\<close>

definition row_value :: "(string \<Rightarrow> string \<Rightarrow> rat) \<Rightarrow> string \<Rightarrow> string \<Rightarrow> rat object \<Rightarrow> jsvalue" where
  "row_value fuzzyset a b row =
     (case get_property row b of
        Undefined \<Rightarrow> Number (fuzzyset a b)
      | Own v \<Rightarrow> Number v
      | Inherited \<Rightarrow> BuiltinObject)"

definition function_value ::
  "(string \<Rightarrow> string \<Rightarrow> rat) \<Rightarrow> (string \<Rightarrow> string \<Rightarrow> builtin_read) \<Rightarrow> string \<Rightarrow> string
     \<Rightarrow> rat object \<Rightarrow> jsvalue" where
  "function_value fuzzyset builtin a b written =
     (case map_of written b of
        Some v \<Rightarrow> Number v
      | None \<Rightarrow>
          (case builtin a b of
             Present u \<Rightarrow> u
           | Absent \<Rightarrow> Number (fuzzyset a b)
           | Raises \<Rightarrow> BuiltinObject))"

definition fuzzy_value ::
  "(string \<Rightarrow> string \<Rightarrow> rat) \<Rightarrow> (string \<Rightarrow> string \<Rightarrow> builtin_read)
     \<Rightarrow> fuzzy_cache \<times> rat object object \<Rightarrow> string \<Rightarrow> string \<Rightarrow> jsvalue" where
  "fuzzy_value fuzzyset builtin store a b =
     (case get_property (fst store) a of
        Undefined \<Rightarrow> row_value fuzzyset a b []
      | Own row \<Rightarrow> row_value fuzzyset a b row
      | Inherited \<Rightarrow>
          if a = ''__proto__'' then (if b = ''__proto__'' then Null else BuiltinObject)
          else function_value fuzzyset builtin a b
                 (case map_of (snd store) a of Some props \<Rightarrow> props | None \<Rightarrow> []))"

definition scorable ::
  "(string \<Rightarrow> string \<Rightarrow> builtin_read) \<Rightarrow> fuzzy_cache \<times> rat object object \<Rightarrow> string \<Rightarrow> string
     \<Rightarrow> bool" where
  "scorable builtin store a b =
     (\<not> (get_property (fst store) a = Inherited
         \<and> (if a = ''__proto__'' then \<not> inherited b
            else map_of (case map_of (snd store) a of Some props \<Rightarrow> props | None \<Rightarrow> []) b = None
               \<and> builtin a b = Raises)))"

text \<open>The distinct elements of a list, each at the place of its first occurrence.\<close>

fun first_occurrences :: "'a list \<Rightarrow> 'a list" where
  "first_occurrences [] = []"
| "first_occurrences (x # xs) = x # filter (\<lambda>y. y \<noteq> x) (first_occurrences xs)"

text \<open>
  The grouping as the specification words it: one pair per section, the sections in the
  order of their first occurrence, each with its entries in the order of the input.
\<close>

definition grouping :: "SearchResult list \<Rightarrow> (string \<times> SearchResult list) list" where
  "grouping rs =
     map (\<lambda>k. (k, filter (\<lambda>r. section' r = k) rs)) (first_occurrences (map section' rs))"

text \<open>
  The result list of \<open>search\<close> as a function of the pool, the query and the values
  that \<open>fuzzyMatch\<close> returns from the caches: the exact matches, then the entries with
  a truthy value, sorted by the comparator.
\<close>

definition matches_of ::
  "(string \<Rightarrow> string) \<Rightarrow> (string \<Rightarrow> string \<Rightarrow> rat) \<Rightarrow> (string \<Rightarrow> string \<Rightarrow> builtin_read) \<Rightarrow> string
     \<Rightarrow> fuzzy_cache \<times> rat object object \<Rightarrow> SearchResult list \<Rightarrow> SearchResult list" where
  "matches_of lower fuzzyset builtin query store index =
     filter (\<lambda>r. exactMatch lower (text' r) query) index
     @ sort_by (\<lambda>x y. js_minus (fuzzy_value fuzzyset builtin store (text' x) query)
                              (fuzzy_value fuzzyset builtin store (text' y) query))
         (filter (\<lambda>r. truthy (fuzzy_value fuzzyset builtin store (text' r) query))
            (filter (\<lambda>r. \<not> exactMatch lower (text' r) query) index))"

text \<open>The two caches that \<open>fuzzyMatch\<close> works on, as \<open>search\<close> passes them.\<close>

definition caches :: "state \<Rightarrow> fuzzy_cache \<times> rat object object" where
  "caches st = (fuzzyCache st, functionProps st)"

text \<open>
  A cache is coherent when every number it stores is the library's score of its pair.
  The empty cache is, and \<open>fuzzyMatch\<close> keeps it so.
\<close>

definition coherent :: "(string \<Rightarrow> string \<Rightarrow> rat) \<Rightarrow> rat object object \<Rightarrow> bool" where
  "coherent fuzzyset cache =
     list_all (\<lambda>(a, row). list_all (\<lambda>(b, v). v = fuzzyset a b) row) cache"

text \<open>A pair is cached when \<open>fuzzyMatch\<close> finds it without writing.\<close>

definition cached ::
  "(string \<Rightarrow> string \<Rightarrow> builtin_read) \<Rightarrow> fuzzy_cache \<times> rat object object \<Rightarrow> string \<Rightarrow> string
     \<Rightarrow> bool" where
  "cached builtin store a b =
     (case get_property (fst store) a of
        Undefined \<Rightarrow> False
      | Own row \<Rightarrow> get_property row b \<noteq> Undefined
      | Inherited \<Rightarrow>
          if a = ''__proto__'' then inherited b
          else (map_of (case map_of (snd store) a of Some props \<Rightarrow> props | None \<Rightarrow> []) b \<noteq> None
                \<or> (case builtin a b of Present u \<Rightarrow> True | Absent \<Rightarrow> False | Raises \<Rightarrow> False)))"


text \<open>An entry without the optional \<open>page\<close>, for the examples.\<close>

definition entry :: "string \<Rightarrow> result_type \<Rightarrow> string \<Rightarrow> string \<Rightarrow> SearchResult" where
  "entry u t s x = \<lparr>url = u, type = t, section' = s, page = None, text' = x\<rparr>"

section \<open>Dictionaries, the similarity cache and the sort\<close>

lemma map_of_set_property: "map_of (set_property obj k v) = (map_of obj)(k \<mapsto> v)"
  by (induction obj) (auto simp: fun_eq_iff)

lemma get_property_set_property:
  "get_property (set_property obj k v) k' = (if k' = k then Own v else get_property obj k')"
  by (simp add: get_property_def map_of_set_property)

lemma fuzzyMatch_Undefined:
  "get_property cache a = Undefined \<Longrightarrow>
   fuzzyMatch f g a b (cache, fns) =
     Some (case get_property [] b of
             Undefined \<Rightarrow>
               (Inr (Number (f a b)), set_property (set_property cache a []) a [(b, f a b)], fns)
           | Own v \<Rightarrow> (Inr (Number v), set_property cache a [], fns)
           | Inherited \<Rightarrow> (Inr BuiltinObject, set_property cache a [], fns))"
  by (simp add: fuzzyMatch_def fuzzyMatch_row_def split: property.splits)

lemma fuzzyMatch_Own:
  "get_property cache a = Own row \<Longrightarrow>
   fuzzyMatch f g a b (cache, fns) =
     Some (case get_property row b of
             Undefined \<Rightarrow>
               (Inr (Number (f a b)), set_property cache a (set_property row b (f a b)), fns)
           | Own v \<Rightarrow> (Inr (Number v), cache, fns)
           | Inherited \<Rightarrow> (Inr BuiltinObject, cache, fns))"
  by (simp add: fuzzyMatch_def fuzzyMatch_row_def split: property.splits)

lemma fuzzyMatch_Inherited:
  "get_property cache a = Inherited \<Longrightarrow>
   fuzzyMatch f g a b (cache, fns) =
     (if a = ''__proto__''
      then (if inherited b
            then Some (Inr (if b = ''__proto__'' then Null else BuiltinObject), cache, fns)
            else None)
      else Some (case map_of (case map_of fns a of Some props \<Rightarrow> props | None \<Rightarrow> []) b of
                   Some v \<Rightarrow> (Inr (Number v), cache, fns)
                 | None \<Rightarrow>
                     (case g a b of
                        Present u \<Rightarrow> (Inr u, cache, fns)
                      | Raises \<Rightarrow> (Inl TypeError, cache, fns)
                      | Absent \<Rightarrow>
                          (Inr (Number (f a b)), cache,
                           set_property fns a
                             (set_property (case map_of fns a of Some props \<Rightarrow> props | None \<Rightarrow> [])
                                b (f a b))))))"
  by (simp add: fuzzyMatch_def fuzzyMatch_function_def Let_def
      split: option.splits builtin_read.splits)

text \<open>\<open>fuzzyMatch\<close> returns a value exactly for the scorable pairs.\<close>

lemma fuzzyMatch_returns:
  "(\<exists>v c'. fuzzyMatch f g a b c = Some (Inr v, c')) \<longleftrightarrow> scorable g c a b"
proof -
  obtain cache fns where c: "c = (cache, fns)" by (cases c)
  show ?thesis
  proof (cases "get_property cache a")
    case Undefined
    then show ?thesis
      unfolding c by (simp add: fuzzyMatch_Undefined scorable_def split: property.splits)
  next
    case (Own row)
    then show ?thesis
      unfolding c by (simp add: fuzzyMatch_Own scorable_def split: property.splits)
  next
    case Inherited
    then show ?thesis
      unfolding c
      by (simp add: fuzzyMatch_Inherited scorable_def split: option.splits builtin_read.splits)
  qed
qed

text \<open>It throws only what a read of a built-in function throws, and then writes nothing.\<close>

lemma fuzzyMatch_throws:
  assumes "fuzzyMatch f g a b c = Some (Inl e, c')"
  shows "e = TypeError \<and> c' = c \<and> g a b = Raises"
proof -
  obtain cache fns where c: "c = (cache, fns)" by (cases c)
  show ?thesis
  proof (cases "get_property cache a")
    case Undefined
    with assms show ?thesis
      unfolding c by (simp add: fuzzyMatch_Undefined split: property.splits)
  next
    case (Own row)
    with assms show ?thesis
      unfolding c by (simp add: fuzzyMatch_Own split: property.splits)
  next
    case Inherited
    with assms show ?thesis
      unfolding c
      by (simp add: fuzzyMatch_Inherited split: if_splits option.splits builtin_read.splits)
  qed
qed

lemma fuzzyMatch_value:
  assumes "fuzzyMatch f g a b c = Some (Inr v, c')"
  shows "v = fuzzy_value f g c a b"
proof -
  obtain cache fns where c: "c = (cache, fns)" by (cases c)
  show ?thesis
  proof (cases "get_property cache a")
    case Undefined
    with assms show ?thesis
      unfolding c
      by (auto simp: fuzzyMatch_Undefined fuzzy_value_def row_value_def split: property.splits)
  next
    case (Own row)
    with assms show ?thesis
      unfolding c
      by (auto simp: fuzzyMatch_Own fuzzy_value_def row_value_def split: property.splits)
  next
    case Inherited
    with assms show ?thesis
      unfolding c
      by (auto simp: fuzzyMatch_Inherited fuzzy_value_def function_value_def
          split: if_splits option.splits builtin_read.splits)
  qed
qed

lemma row_value_set:
  "get_property row b = Undefined \<Longrightarrow>
   row_value f a b' (set_property row b (f a b)) = row_value f a b' row"
  by (simp add: row_value_def get_property_set_property)

lemma function_value_set:
  "map_of written b = None \<Longrightarrow> g a b = Absent \<Longrightarrow>
   function_value f g a b' (set_property written b (f a b)) = function_value f g a b' written"
  by (simp add: function_value_def map_of_set_property)

text \<open>What a call of \<open>fuzzyMatch\<close> that returns does to the two caches.\<close>

lemma fuzzyMatch_plain:
  assumes "fuzzyMatch f g a b (cache, fns) = Some (Inr v, cache', fns')"
    and "get_property cache a \<noteq> Inherited"
  shows "fns' = fns \<and> (\<exists>row'. (\<forall>k. get_property cache' k = (if k = a then Own row' else get_property cache k))
          \<and> (\<forall>b'. row_value f a b' row'
                 = row_value f a b' (case get_property cache a of Own r \<Rightarrow> r | Undefined \<Rightarrow> [] | Inherited \<Rightarrow> [])))"
proof (cases "get_property cache a")
  case Undefined
  show ?thesis
  proof (cases "get_property ([] :: rat object) b = Undefined")
    case True
    with assms(1) have "cache' = set_property (set_property cache a []) a [(b, f a b)]" "fns' = fns"
      by (simp_all add: fuzzyMatch_Undefined [OF Undefined])
    moreover have "\<forall>b'. row_value f a b' [(b, f a b)] = row_value f a b' []"
      using row_value_set [OF True, of f a] by simp
    ultimately show ?thesis
      using Undefined by (auto simp: get_property_set_property)
  next
    case False
    with assms(1) have "cache' = set_property cache a []" "fns' = fns"
      by (auto simp: fuzzyMatch_Undefined [OF Undefined] split: property.splits)
    then show ?thesis
      using Undefined by (auto simp: get_property_set_property)
  qed
next
  case (Own row)
  show ?thesis
  proof (cases "get_property row b = Undefined")
    case True
    with assms(1) have "cache' = set_property cache a (set_property row b (f a b))" "fns' = fns"
      by (simp_all add: fuzzyMatch_Own [OF Own])
    moreover have "\<forall>b'. row_value f a b' (set_property row b (f a b)) = row_value f a b' row"
      using row_value_set [OF True] by simp
    ultimately show ?thesis
      using Own by (auto simp: get_property_set_property)
  next
    case False
    with assms(1) have "cache' = cache" "fns' = fns"
      by (auto simp: fuzzyMatch_Own [OF Own] split: property.splits)
    then show ?thesis
      using Own by auto
  qed
next
  case Inherited
  with assms(2) show ?thesis by simp
qed

lemma fuzzyMatch_builtin:
  assumes "fuzzyMatch f g a b (cache, fns) = Some (Inr v, cache', fns')"
    and "get_property cache a = Inherited"
  shows "cache' = cache
       \<and> (fns' = fns
          \<or> (a \<noteq> ''__proto__''
             \<and> map_of (case map_of fns a of Some props \<Rightarrow> props | None \<Rightarrow> []) b = None
             \<and> g a b = Absent
             \<and> fns' = set_property fns a
                  (set_property (case map_of fns a of Some props \<Rightarrow> props | None \<Rightarrow> []) b (f a b))))"
  using assms(1) unfolding fuzzyMatch_Inherited [OF assms(2)]
  by (auto split: if_splits option.splits builtin_read.splits)

lemma fuzzyMatch_preserves_get:
  assumes "fuzzyMatch f g a b c = Some (Inr v, c')"
  shows "get_property (fst c') k = Inherited \<longleftrightarrow> get_property (fst c) k = Inherited"
proof -
  obtain cache fns cache' fns' where c: "c = (cache, fns)" "c' = (cache', fns')"
    by (cases c; cases c') auto
  show ?thesis
  proof (cases "get_property cache a = Inherited")
    case True
    with assms show ?thesis
      unfolding c using fuzzyMatch_builtin by fastforce
  next
    case False
    from fuzzyMatch_plain [OF assms [unfolded c] False] obtain row' where
      get: "\<And>k. get_property cache' k = (if k = a then Own row' else get_property cache k)"
      by blast
    show ?thesis
      unfolding c using False by (cases "k = a") (simp_all add: get)
  qed
qed

lemma fuzzyMatch_preserves_written:
  assumes "fuzzyMatch f g a b c = Some (Inr v, c')"
  shows "(map_of (case map_of (snd c') a' of Some props \<Rightarrow> props | None \<Rightarrow> []) b' = None
            \<and> g a' b' = Raises)
       \<longleftrightarrow> (map_of (case map_of (snd c) a' of Some props \<Rightarrow> props | None \<Rightarrow> []) b' = None
            \<and> g a' b' = Raises)"
proof -
  obtain cache fns cache' fns' where c: "c = (cache, fns)" "c' = (cache', fns')"
    by (cases c; cases c') auto
  show ?thesis
  proof (cases "get_property cache a = Inherited")
    case False
    from fuzzyMatch_plain [OF assms [unfolded c] False] have "fns' = fns"
      by blast
    then show ?thesis
      unfolding c by simp
  next
    case True
    from fuzzyMatch_builtin [OF assms [unfolded c] True] have
      "fns' = fns
          \<or> (a \<noteq> ''__proto__''
             \<and> map_of (case map_of fns a of Some props \<Rightarrow> props | None \<Rightarrow> []) b = None
             \<and> g a b = Absent
             \<and> fns' = set_property fns a
                  (set_property (case map_of fns a of Some props \<Rightarrow> props | None \<Rightarrow> []) b (f a b)))"
      by blast
    then show ?thesis
    proof
      assume "fns' = fns"
      then show ?thesis unfolding c by simp
    next
      assume w: "a \<noteq> ''__proto__''
             \<and> map_of (case map_of fns a of Some props \<Rightarrow> props | None \<Rightarrow> []) b = None
             \<and> g a b = Absent
             \<and> fns' = set_property fns a
                  (set_property (case map_of fns a of Some props \<Rightarrow> props | None \<Rightarrow> []) b (f a b))"
      show ?thesis
      proof (cases "a' = a")
        case True
        with w show ?thesis
          unfolding c by (cases "b' = b") (simp_all add: map_of_set_property)
      next
        case False
        with w show ?thesis
          unfolding c by (simp add: map_of_set_property)
      qed
    qed
  qed
qed

lemma fuzzyMatch_preserves_scorable:
  "fuzzyMatch f g a b c = Some (Inr v, c') \<Longrightarrow> scorable g c' a' b' = scorable g c a' b'"
  unfolding scorable_def
  by (simp only: fuzzyMatch_preserves_get [of f g a b c v c']
        fuzzyMatch_preserves_written [of f g a b c v c'])

lemma fuzzyMatch_preserves_value:
  assumes "fuzzyMatch f g a b c = Some (Inr v, c')"
  shows "fuzzy_value f g c' a' b' = fuzzy_value f g c a' b'"
proof -
  obtain cache fns cache' fns' where c: "c = (cache, fns)" "c' = (cache', fns')"
    by (cases c; cases c') auto
  show ?thesis
  proof (cases "get_property cache a = Inherited")
    case False
    from fuzzyMatch_plain [OF assms [unfolded c] False] obtain row' where
      fns: "fns' = fns"
      and get: "\<And>k. get_property cache' k = (if k = a then Own row' else get_property cache k)"
      and val: "\<And>b'. row_value f a b' row'
          = row_value f a b' (case get_property cache a of Own r \<Rightarrow> r | Undefined \<Rightarrow> [] | Inherited \<Rightarrow> [])"
      by blast
    show ?thesis
    proof (cases "a' = a")
      case True
      then show ?thesis
        unfolding c using False
        by (cases "get_property cache a") (simp_all add: fuzzy_value_def get val)
    next
      case neq: False
      then show ?thesis
        unfolding c fns by (simp add: fuzzy_value_def get split: property.splits)
    qed
  next
    case True
    from fuzzyMatch_builtin [OF assms [unfolded c] True] have
      cache: "cache' = cache"
      and fns: "fns' = fns
          \<or> (a \<noteq> ''__proto__''
             \<and> map_of (case map_of fns a of Some props \<Rightarrow> props | None \<Rightarrow> []) b = None
             \<and> g a b = Absent
             \<and> fns' = set_property fns a
                  (set_property (case map_of fns a of Some props \<Rightarrow> props | None \<Rightarrow> []) b (f a b)))"
      by blast+
    from fns show ?thesis
    proof
      assume "fns' = fns"
      then show ?thesis unfolding c by (simp add: cache)
    next
      assume w: "a \<noteq> ''__proto__''
             \<and> map_of (case map_of fns a of Some props \<Rightarrow> props | None \<Rightarrow> []) b = None
             \<and> g a b = Absent
             \<and> fns' = set_property fns a
                  (set_property (case map_of fns a of Some props \<Rightarrow> props | None \<Rightarrow> []) b (f a b))"
      show ?thesis
      proof (cases "a' = a")
        case True
        with w show ?thesis
          unfolding c
          by (simp add: fuzzy_value_def cache map_of_set_property function_value_set
              split: property.splits)
      next
        case False
        with w show ?thesis
          unfolding c
          by (simp add: fuzzy_value_def cache map_of_set_property split: property.splits)
      qed
    qed
  qed
qed

lemma filter_fuzzyMatch_Cons:
  assumes "filter_fuzzyMatch f g q (r # rs) c = Some (Inr kept, c')"
  obtains v c1 kept1 where
    "fuzzyMatch f g (text' r) q c = Some (Inr v, c1)"
    "filter_fuzzyMatch f g q rs c1 = Some (Inr kept1, c')"
    "kept = (if truthy v then r # kept1 else kept1)"
  using assms by (auto split: option.splits sum.splits)

lemma filter_fuzzyMatch_Some:
  "filter_fuzzyMatch f g q rs c = Some (Inr kept, c') \<Longrightarrow>
     kept = filter (\<lambda>r. truthy (fuzzy_value f g c (text' r) q)) rs
     \<and> list_all (\<lambda>r. scorable g c (text' r) q) rs
     \<and> (\<forall>a b. fuzzy_value f g c' a b = fuzzy_value f g c a b)
     \<and> (\<forall>a b. scorable g c' a b = scorable g c a b)"
proof (induction rs arbitrary: c kept c')
  case Nil
  then show ?case by simp
next
  case (Cons r rs)
  from Cons.prems obtain v c1 kept1 where
    step: "fuzzyMatch f g (text' r) q c = Some (Inr v, c1)"
    and rest: "filter_fuzzyMatch f g q rs c1 = Some (Inr kept1, c')"
    and kept: "kept = (if truthy v then r # kept1 else kept1)"
    by (rule filter_fuzzyMatch_Cons)
  have v: "v = fuzzy_value f g c (text' r) q"
    using step by (rule fuzzyMatch_value)
  have val: "\<And>a b. fuzzy_value f g c1 a b = fuzzy_value f g c a b"
    using step by (rule fuzzyMatch_preserves_value)
  have sc: "\<And>a b. scorable g c1 a b = scorable g c a b"
    using step by (rule fuzzyMatch_preserves_scorable)
  have here: "scorable g c (text' r) q"
    using step fuzzyMatch_returns [of f g "text' r" q c] by blast
  from Cons.IH [OF rest] show ?case
    using kept v here by (simp add: val sc)
qed


text \<open>The filter throws only what \<open>fuzzyMatch\<close> throws.\<close>

lemma filter_fuzzyMatch_throws:
  "filter_fuzzyMatch f g q rs c = Some (Inl e, c') \<Longrightarrow> e = TypeError"
proof (induction rs arbitrary: c)
  case Nil
  then show ?case by simp
next
  case (Cons r rs)
  show ?case
  proof (cases "fuzzyMatch f g (text' r) q c")
    case None
    with Cons.prems show ?thesis by simp
  next
    case (Some res)
    obtain x c1 where res: "res = (x, c1)" by (cases res)
    show ?thesis
    proof (cases x)
      case (Inl e1)
      with Cons.prems Some res have "e1 = e"
        by simp
      with Some res Inl show ?thesis
        using fuzzyMatch_throws by blast
    next
      case (Inr v)
      with Cons.prems Some res have "filter_fuzzyMatch f g q rs c1 = Some (Inl e, c')"
        by (auto split: option.splits sum.splits)
      then show ?thesis
        by (rule Cons.IH)
    qed
  qed
qed

lemma compare_fuzzyMatch_value:
  assumes "scorable g c (text' x) q" and "scorable g c (text' y) q"
  shows "compare_fuzzyMatch f g q c x y
     = js_minus (fuzzy_value f g c (text' x) q) (fuzzy_value f g c (text' y) q)"
proof -
  from assms(1) obtain u s1 where x: "fuzzyMatch f g (text' x) q c = Some (Inr u, s1)"
    using fuzzyMatch_returns [of f g "text' x" q c] by blast
  from assms(2) obtain v s2 where y: "fuzzyMatch f g (text' y) q c = Some (Inr v, s2)"
    using fuzzyMatch_returns [of f g "text' y" q c] by blast
  show ?thesis
    by (simp add: compare_fuzzyMatch_def x y fuzzyMatch_value [OF x, symmetric]
        fuzzyMatch_value [OF y, symmetric])
qed

lemma fuzzyMatch_cached:
  assumes "cached g c a b"
  shows "fuzzyMatch f g a b c = Some (Inr (fuzzy_value f g c a b), c)"
proof -
  obtain cache fns where c: "c = (cache, fns)" by (cases c)
  show ?thesis
  proof (cases "get_property cache a")
    case Undefined
    with assms show ?thesis
      unfolding c by (simp add: cached_def)
  next
    case (Own row)
    with assms show ?thesis
      unfolding c
      by (auto simp: cached_def fuzzyMatch_Own fuzzy_value_def row_value_def
          split: property.splits)
  next
    case Inherited
    with assms show ?thesis
      unfolding c
      by (auto simp: cached_def fuzzyMatch_Inherited fuzzy_value_def function_value_def
          split: if_splits option.splits builtin_read.splits)
  qed
qed

lemma fuzzyMatch_plain_row:
  assumes "fuzzyMatch f g a b (cache, fns) = Some (Inr v, cache', fns')"
    and "get_property cache a \<noteq> Inherited"
  shows "\<exists>row'. get_property cache' a = Own row' \<and> get_property row' b \<noteq> Undefined
           \<and> (\<forall>row b'. get_property cache a = Own row \<longrightarrow> get_property row b' \<noteq> Undefined
                  \<longrightarrow> get_property row' b' \<noteq> Undefined)"
proof (cases "get_property cache a")
  case Undefined
  show ?thesis
  proof (cases "get_property ([] :: rat object) b = Undefined")
    case True
    with assms(1) have "cache' = set_property (set_property cache a []) a [(b, f a b)]"
      by (simp add: fuzzyMatch_Undefined [OF Undefined])
    moreover have "get_property [(b, f a b)] b = Own (f a b)"
      by (simp add: get_property_def)
    ultimately show ?thesis
      using Undefined by (simp add: get_property_set_property)
  next
    case False
    with assms(1) have "cache' = set_property cache a []"
      by (auto simp: fuzzyMatch_Undefined [OF Undefined] split: property.splits)
    then show ?thesis
      using Undefined False by (simp add: get_property_set_property)
  qed
next
  case (Own row)
  show ?thesis
  proof (cases "get_property row b = Undefined")
    case True
    with assms(1) have "cache' = set_property cache a (set_property row b (f a b))"
      by (simp add: fuzzyMatch_Own [OF Own])
    then show ?thesis
      using Own by (simp add: get_property_set_property)
  next
    case False
    with assms(1) have "cache' = cache"
      by (auto simp: fuzzyMatch_Own [OF Own] split: property.splits)
    then show ?thesis
      using Own False by simp
  qed
next
  case Inherited
  with assms(2) show ?thesis by simp
qed

lemma fuzzyMatch_caches_and_keeps:
  assumes "fuzzyMatch f g a b c = Some (Inr v, c')"
  shows "cached g c' a b \<and> (cached g c a' b' \<longrightarrow> cached g c' a' b')"
proof -
  obtain cache fns cache' fns' where c: "c = (cache, fns)" "c' = (cache', fns')"
    by (cases c; cases c') auto
  note call = assms [unfolded c]
  show ?thesis
  proof (cases "get_property cache a = Inherited")
    case False
    from fuzzyMatch_plain [OF call False] obtain row0 where
      fns: "fns' = fns"
      and get: "\<And>k. get_property cache' k = (if k = a then Own row0 else get_property cache k)"
      by blast
    from fuzzyMatch_plain_row [OF call False] obtain row' where
      row': "get_property cache' a = Own row'" "get_property row' b \<noteq> Undefined"
      and grow: "\<And>row b'. get_property cache a = Own row \<Longrightarrow> get_property row b' \<noteq> Undefined
                  \<Longrightarrow> get_property row' b' \<noteq> Undefined"
      by blast
    have 1: "cached g (cache', fns') a b"
      using row' by (simp add: cached_def)
    have 2: "cached g (cache, fns) a' b' \<longrightarrow> cached g (cache', fns') a' b'"
    proof (cases "a' = a")
      case True
      show ?thesis
        using False row' grow unfolding True
        by (cases "get_property cache a") (auto simp: cached_def)
    next
      case neq: False
      then show ?thesis
        by (simp add: cached_def get fns split: property.splits)
    qed
    from 1 2 show ?thesis unfolding c by simp
  next
    case True
    note inh = fuzzyMatch_Inherited [OF True, of f g b fns]
    show ?thesis
    proof (cases "a = ''__proto__''")
      case proto: True
      with call inh have "inherited b" "cache' = cache" "fns' = fns"
        by (auto split: if_splits)
      then show ?thesis
        unfolding c using True proto by (simp add: cached_def)
    next
      case fn: False
      let ?written = "case map_of fns a of Some props \<Rightarrow> props | None \<Rightarrow> []"
      show ?thesis
      proof (cases "map_of ?written b = None \<and> g a b = Absent")
        case False
        with call inh fn have "cache' = cache" "fns' = fns"
          "map_of ?written b \<noteq> None \<or> (\<exists>u. g a b = Present u)"
          by (auto split: option.splits builtin_read.splits)
        then show ?thesis
          unfolding c using True fn by (auto simp: cached_def)
      next
        case w: True
        with call inh fn have same: "cache' = cache"
          and fns': "fns' = set_property fns a (set_property ?written b (f a b))"
          by (auto split: option.splits)
        have 1: "cached g (cache', fns') a b"
          using True fn by (simp add: cached_def same fns' map_of_set_property)
        have 2: "cached g (cache, fns) a' b' \<longrightarrow> cached g (cache', fns') a' b'"
        proof (cases "a' = a")
          case True
          then show ?thesis
            using \<open>get_property cache a = Inherited\<close> fn
            by (auto simp: cached_def same fns' map_of_set_property)
        next
          case False
          then show ?thesis
            by (simp add: cached_def same fns' map_of_set_property split: property.splits)
        qed
        from 1 2 show ?thesis unfolding c by simp
      qed
    qed
  qed
qed

lemma filter_fuzzyMatch_caches:
  "filter_fuzzyMatch f g q rs c = Some (Inr kept, c') \<Longrightarrow>
     (\<forall>r \<in> set rs. cached g c' (text' r) q) \<and> (\<forall>a b. cached g c a b \<longrightarrow> cached g c' a b)"
proof (induction rs arbitrary: c kept c')
  case Nil
  then show ?case by simp
next
  case (Cons r rs)
  from Cons.prems obtain v c1 kept1 where
    step: "fuzzyMatch f g (text' r) q c = Some (Inr v, c1)"
    and rest: "filter_fuzzyMatch f g q rs c1 = Some (Inr kept1, c')"
    by (rule filter_fuzzyMatch_Cons)
  have "cached g c1 (text' r) q"
    using fuzzyMatch_caches_and_keeps [OF step] by blast
  moreover have "\<And>a b. cached g c a b \<Longrightarrow> cached g c1 a b"
    using fuzzyMatch_caches_and_keeps [OF step] by blast
  ultimately show ?case
    using Cons.IH [OF rest] by auto
qed

text \<open>
  After the filter every entry it has seen is in the cache, so the calls of
  \<open>fuzzyMatch\<close> that the comparator makes return the value and leave the caches alone.
\<close>

lemma fuzzyMatch_again:
  assumes "filter_fuzzyMatch f g q rs c = Some (Inr kept, c')" and "r \<in> set rs"
  shows "fuzzyMatch f g (text' r) q c' = Some (Inr (fuzzy_value f g c' (text' r) q), c')"
  using filter_fuzzyMatch_caches [OF assms(1)] assms(2) by (intro fuzzyMatch_cached) blast

lemma set_insert_by: "set (insert_by cmp x ys) = insert x (set ys)"
  by (induction ys) (auto split: option.splits)

lemma set_sort_by: "set (sort_by cmp xs) = set xs"
  by (induction xs) (simp_all add: sort_by_def set_insert_by)

lemma insert_by_cong:
  "(\<And>y. y \<in> set ys \<Longrightarrow> cmp x y = cmp' x y) \<Longrightarrow> insert_by cmp x ys = insert_by cmp' x ys"
  by (induction ys) (auto split: option.splits)

lemma sort_by_cong:
  "(\<And>x y. x \<in> set xs \<Longrightarrow> y \<in> set xs \<Longrightarrow> cmp x y = cmp' x y) \<Longrightarrow>
   sort_by cmp xs = sort_by cmp' xs"
proof (induction xs)
  case Nil
  then show ?case by (simp add: sort_by_def)
next
  case (Cons x xs)
  have tail: "sort_by cmp xs = sort_by cmp' xs"
    using Cons by simp
  have "insert_by cmp x (sort_by cmp' xs) = insert_by cmp' x (sort_by cmp' xs)"
    by (rule insert_by_cong) (simp add: set_sort_by Cons.prems)
  then show ?case
    using tail by (simp add: sort_by_def)
qed






lemma insert_by_insort_key:
  "insert_by (\<lambda>x y. Some (g x - g y)) x ys = insort_key g x ys"
  by (induction ys) auto

lemma sort_by_sort_key: "sort_by (\<lambda>x y. Some (g x - g y)) xs = sort_key g xs"
  by (induction xs) (simp_all add: sort_by_def insert_by_insort_key)

lemma first_occurrences_set: "set (first_occurrences xs) = set xs"
  by (induction xs) auto

lemma first_occurrences_distinct: "distinct (first_occurrences xs)"
  by (induction xs) (auto simp: first_occurrences_set)

lemma first_occurrences_snoc:
  "first_occurrences (xs @ [x]) =
     (if x \<in> set xs then first_occurrences xs else first_occurrences xs @ [x])"
  by (induction xs) auto

lemma set_property_new:
  "k \<notin> fst ` set obj \<Longrightarrow> set_property obj k v = obj @ [(k, v)]"
  by (induction obj) auto

lemma set_property_old:
  "distinct ks \<Longrightarrow> k \<in> set ks \<Longrightarrow>
   set_property (map (\<lambda>k'. (k', g k')) ks) k v = map (\<lambda>k'. (k', if k' = k then v else g k')) ks"
  by (induction ks) auto


lemma map_of_keys:
  "map_of (map (\<lambda>k. (k, g k)) ks) k = (if k \<in> set ks then Some (g k) else None)"
  by (induction ks) auto

lemma map_of_grouping:
  "map_of (grouping rs) k =
     (if k \<in> section' ` set rs then Some (filter (\<lambda>r. section' r = k) rs) else None)"
  by (simp add: grouping_def map_of_keys first_occurrences_set)

lemma filter_fresh: "k \<notin> f ` set xs \<Longrightarrow> filter (\<lambda>x. f x = k) xs = []"
  by (induction xs) auto

lemma grouping_snoc:
  "grouping (seen @ [r]) =
     set_property (grouping seen) (section' r) (filter (\<lambda>x. section' x = section' r) seen @ [r])"
proof (cases "section' r \<in> section' ` set seen")
  case True
  then have "section' r \<in> set (first_occurrences (map section' seen))"
    by (simp add: first_occurrences_set)
  then show ?thesis
    using True
    by (simp add: grouping_def first_occurrences_snoc
        set_property_old [OF first_occurrences_distinct])
next
  case False
  then have new: "section' r \<notin> fst ` set (grouping seen)"
    by (auto simp: grouping_def first_occurrences_set)
  have "filter (\<lambda>x. section' x = section' r) seen = []"
    using False by (rule filter_fresh)
  then show ?thesis
    using False
    by (auto simp: grouping_def first_occurrences_snoc first_occurrences_set
        set_property_new [OF new, unfolded grouping_def])
qed

lemma reduce_groups_grouping:
  "list_all (\<lambda>r. \<not> inherited (section' r)) rs \<Longrightarrow>
   reduce_groups rs (grouping seen) = Inr (grouping (seen @ rs))"
proof (induction rs arbitrary: seen)
  case Nil
  then show ?case by simp
next
  case (Cons r rs)
  have fresh: "section' r \<notin> section' ` set seen \<Longrightarrow>
      filter (\<lambda>x. section' x = section' r) seen = []"
    by (rule filter_fresh)
  have step: "reduce_groups (r # rs) (grouping seen) = reduce_groups rs (grouping (seen @ [r]))"
    using Cons.prems fresh
    by (auto simp: get_property_def map_of_grouping grouping_snoc split: option.splits)
  have "reduce_groups rs (grouping (seen @ [r])) = Inr (grouping ((seen @ [r]) @ rs))"
    using Cons.prems by (intro Cons.IH) simp
  then show ?case using step by simp
qed

lemma for_in_no_index:
  "list_all (\<lambda>p. \<not> is_index (fst p)) obj \<Longrightarrow> for_in obj = obj"
proof -
  assume a: "list_all (\<lambda>p. \<not> is_index (fst p)) obj"
  then have "filter (\<lambda>p. is_index (fst p)) obj = []"
    by (induction obj) auto
  moreover from a have "filter (\<lambda>p. \<not> is_index (fst p)) obj = obj"
    by (induction obj) auto
  ultimately show ?thesis by (simp add: for_in_def)
qed

section \<open>The result grouper: order\<close>

text \<open>
  C7 (amended). Grouping is a single pass that keeps the order of the input: when no
  section name is an array index or a name inherited from \<open>Object.prototype\<close>, the
  \<open>reduce\<close> builds exactly the grouping of the specification, and \<open>for ... in\<close> visits
  its sections in the order of their first occurrence, each with its entries in input
  order.
\<close>

theorem grouping_order_stable:
  assumes "list_all (\<lambda>r. \<not> inherited (section' r) \<and> \<not> is_index (section' r)) rs"
  shows "reduce_groups rs [] = Inr (grouping rs) \<and> for_in (grouping rs) = grouping rs"
proof -
  have plain: "list_all (\<lambda>r. \<not> inherited (section' r)) rs"
    using assms by (induction rs) auto
  have "reduce_groups rs (grouping []) = Inr (grouping ([] @ rs))"
    using plain by (rule reduce_groups_grouping)
  then have built: "reduce_groups rs [] = Inr (grouping rs)"
    by (simp add: grouping_def)
  have "list_all (\<lambda>p. \<not> is_index (fst p)) (grouping rs)"
    using assms
    by (auto simp: grouping_def list_all_iff first_occurrences_set)
  then have "for_in (grouping rs) = grouping rs"
    by (rule for_in_no_index)
  with built show ?thesis by simp
qed

theorem grouping_order_stable_witness:
  "list_all (\<lambda>r. \<not> inherited (section' r) \<and> \<not> is_index (section' r))
     [entry ''/a'' Page ''X'' ''A'', entry ''/b'' Heading ''Y'' ''B'', entry ''/c'' Inline ''X'' ''C'']
   \<and> reduce_groups
       [entry ''/a'' Page ''X'' ''A'', entry ''/b'' Heading ''Y'' ''B'', entry ''/c'' Inline ''X'' ''C''] []
     = Inr [(''X'', [entry ''/a'' Page ''X'' ''A'', entry ''/c'' Inline ''X'' ''C'']),
            (''Y'', [entry ''/b'' Heading ''Y'' ''B''])]
   \<and> for_in [(''X'', [entry ''/a'' Page ''X'' ''A'', entry ''/c'' Inline ''X'' ''C'']),
             (''Y'', [entry ''/b'' Heading ''Y'' ''B''])]
     = [(''X'', [entry ''/a'' Page ''X'' ''A'', entry ''/c'' Inline ''X'' ''C'']),
        (''Y'', [entry ''/b'' Heading ''Y'' ''B''])]"
proof -
  let ?rs = "[entry ''/a'' Page ''X'' ''A'', entry ''/b'' Heading ''Y'' ''B'',
              entry ''/c'' Inline ''X'' ''C'']"
  have pre: "list_all (\<lambda>r. \<not> inherited (section' r) \<and> \<not> is_index (section' r)) ?rs"
    by (simp add: entry_def inherited_def proto_keys_def is_index_def array_index_def
        digit_of_def)
  have g: "grouping ?rs
      = [(''X'', [entry ''/a'' Page ''X'' ''A'', entry ''/c'' Inline ''X'' ''C'']),
         (''Y'', [entry ''/b'' Heading ''Y'' ''B''])]"
    by (simp add: grouping_def entry_def)
  show ?thesis
    using pre grouping_order_stable [OF pre] by (simp only: g simp_thms)
qed

theorem grouping_array_index_counterexample:
  "reduce_groups [entry ''/a'' Page ''Guides'' ''A'', entry ''/b'' Page ''2021'' ''B''] []
     = Inr [(''Guides'', [entry ''/a'' Page ''Guides'' ''A'']),
            (''2021'', [entry ''/b'' Page ''2021'' ''B''])]
   \<and> map fst (for_in [(''Guides'', [entry ''/a'' Page ''Guides'' ''A'']),
                       (''2021'', [entry ''/b'' Page ''2021'' ''B''])])
     = [''2021'', ''Guides'']
   \<and> first_occurrences
       (map section' [entry ''/a'' Page ''Guides'' ''A'', entry ''/b'' Page ''2021'' ''B''])
     = [''Guides'', ''2021'']"
  by (simp add: entry_def get_property_def inherited_def proto_keys_def for_in_def
      is_index_def index_value_def array_index_def digit_of_def)

section \<open>The index store: memoization\<close>

lemma fetchIndex_cached:
  "indexCache st \<noteq> [] \<Longrightarrow> fetchIndex net st = Return (indexCache st) st"
  by (simp add: fetchIndex_def fetchIndex_start_def)

lemma fetchIndex_cold:
  "indexCache st = [] \<Longrightarrow>
   fetchIndex net st =
     (case net (requests st) of
        Json entries \<Rightarrow>
          Return entries (st\<lparr>indexCache := entries, requests := Suc (requests st)\<rparr>)
      | NetworkError \<Rightarrow> Throw FetchError (st\<lparr>requests := Suc (requests st)\<rparr>)
      | Malformed \<Rightarrow> Throw FetchError (st\<lparr>requests := Suc (requests st)\<rparr>))"
  by (simp add: fetchIndex_def fetchIndex_start_def fetchIndex_resume_def split: response.splits)

text \<open>
  C5 (amended). The index fetch is memoized by the length of the cache: after a call
  that returned a non-empty index, the next call returns the same sequence and leaves
  the state, and with it the number of network requests, as it is. Starting from an
  empty cache the two calls make exactly one request.
\<close>

theorem fetchIndex_memoized:
  assumes "fetchIndex net st = Return entries st'" and "entries \<noteq> []"
  shows "fetchIndex net st' = Return entries st'
       \<and> requests st' = (if indexCache st = [] then Suc (requests st) else requests st)"
proof (cases "indexCache st = []")
  case True
  with assms obtain es where
    "net (requests st) = Json es" "entries = es"
    "st' = st\<lparr>indexCache := es, requests := Suc (requests st)\<rparr>"
    by (auto simp: fetchIndex_cold split: response.splits)
  with assms(2) True show ?thesis
    by (simp add: fetchIndex_cached)
next
  case False
  with assms have "st' = st" "entries = indexCache st"
    by (auto simp: fetchIndex_cached)
  with False show ?thesis
    by (simp add: fetchIndex_cached)
qed

theorem fetchIndex_memoized_witness:
  "fetchIndex (\<lambda>n. Json [entry ''/a'' Page ''Guides'' ''Install'']) initial
     = Return [entry ''/a'' Page ''Guides'' ''Install'']
         (initial\<lparr>indexCache := [entry ''/a'' Page ''Guides'' ''Install''], requests := 1\<rparr>)
   \<and> fetchIndex (\<lambda>n. Json [entry ''/a'' Page ''Guides'' ''Install''])
       (initial\<lparr>indexCache := [entry ''/a'' Page ''Guides'' ''Install''], requests := 1\<rparr>)
     = Return [entry ''/a'' Page ''Guides'' ''Install'']
         (initial\<lparr>indexCache := [entry ''/a'' Page ''Guides'' ''Install''], requests := 1\<rparr>)
   \<and> requests (initial\<lparr>indexCache := [entry ''/a'' Page ''Guides'' ''Install''], requests := 1\<rparr>)
     = Suc (requests initial)"
proof -
  let ?net = "\<lambda>n::nat. Json [entry ''/a'' Page ''Guides'' ''Install'']"
  let ?st = "initial\<lparr>indexCache := [entry ''/a'' Page ''Guides'' ''Install''], requests := 1\<rparr>"
  have first: "fetchIndex ?net initial = Return [entry ''/a'' Page ''Guides'' ''Install''] ?st"
    by (simp add: fetchIndex_def fetchIndex_start_def fetchIndex_resume_def initial_def)
  have "[entry ''/a'' Page ''Guides'' ''Install''] \<noteq> []"
    by simp
  from fetchIndex_memoized [OF first this] first show ?thesis
    by (simp add: initial_def)
qed

theorem fetchIndex_empty_index_counterexample:
  "fetchIndex (\<lambda>n. Json []) initial = Return [] (initial\<lparr>requests := 1\<rparr>)
   \<and> fetchIndex (\<lambda>n. Json []) (initial\<lparr>requests := 1\<rparr>) = Return [] (initial\<lparr>requests := 2\<rparr>)"
  by (simp add: fetchIndex_def fetchIndex_start_def fetchIndex_resume_def initial_def)

text \<open>
  C10. Two calls of \<open>fetchIndex\<close> that overlap, on an empty cache: both find the cache
  empty and both send a request. Two requests are made, and each response is appended,
  so the index ends up holding every entry twice.
\<close>

theorem fetchIndex_overlapping_calls:
  "run (\<lambda>n. Json [entry ''/a'' Page ''Guides'' ''Install'']) [0, 1, 0, 1] ([Fresh, Fresh], initial)
     = ([Finished [entry ''/a'' Page ''Guides'' ''Install''],
         Finished [entry ''/a'' Page ''Guides'' ''Install'', entry ''/a'' Page ''Guides'' ''Install'']],
        initial\<lparr>indexCache := [entry ''/a'' Page ''Guides'' ''Install'',
                                 entry ''/a'' Page ''Guides'' ''Install''],
                 requests := 2\<rparr>)"
  by (simp add: task_step_def fetchIndex_start_def fetchIndex_resume_def initial_def)

lemma fetchIndex_as_task:
  "run net [0, 0] ([Fresh], st) =
     (case fetchIndex net st of
        Return entries st' \<Rightarrow> ([Finished entries], st')
      | Throw e st' \<Rightarrow> ([Failed], st')
      | Stuck \<Rightarrow> ([Failed], st))"
  by (auto simp: task_step_def fetchIndex_def fetchIndex_start_def fetchIndex_resume_def
      split: response.splits)

text \<open>
  Whatever the responses are, two calls that both start on an empty cache send two
  requests.
\<close>

lemma overlapping_calls_request_twice:
  assumes "indexCache st = []"
  shows "run net [0, 1] ([Fresh, Fresh], st)
       = ([Awaiting (requests st), Awaiting (Suc (requests st))],
          st\<lparr>requests := Suc (Suc (requests st))\<rparr>)"
  using assms by (simp add: task_step_def fetchIndex_start_def)

section \<open>Search: the structure of a call\<close>


lemma startsWith_Nil: "startsWith s []"
  by (cases s) auto

lemma includes_str_Nil: "includes_str s []"
  by (cases s) auto

lemma toLowerCase_Nil: "toLowerCase lower [] = []"
  by (simp add: toLowerCase_def)

lemma exactMatch_Nil: "exactMatch lower a []"
  by (simp add: exactMatch_def toLowerCase_Nil includes_str_Nil)

lemma filter_not_in_filter:
  "filter (\<lambda>r. r \<notin> set (filter P xs)) xs = filter (\<lambda>r. \<not> P r) xs"
  by (rule filter_cong) auto

lemma search_index_frame:
  assumes "search_index net q st = Return index st1"
  shows "caches st1 = caches st \<and> matchCache_query st1 = matchCache_query st
       \<and> matchCache_results st1 = matchCache_results st \<and> resultsView st1 = resultsView st"
proof (cases "indexCache st = []")
  case True
  with assms show ?thesis
    by (auto simp: search_index_def fetchIndex_cold caches_def
        split: if_splits response.splits)
next
  case False
  with assms show ?thesis
    by (auto simp: search_index_def fetchIndex_cached split: if_splits)
qed

lemma sort_compare_fuzzyMatch:
  assumes "list_all (\<lambda>r. scorable g c (text' r) q) rs"
  shows "sort_by (compare_fuzzyMatch f g q c) rs
       = sort_by (\<lambda>x y. js_minus (fuzzy_value f g c (text' x) q)
                                (fuzzy_value f g c (text' y) q)) rs"
  using assms by (intro sort_by_cong compare_fuzzyMatch_value) (auto simp: list_all_iff)


lemma search_unfold:
  "search lower f g net input st =
     (case search_index net (toLowerCase lower input) st of
        Stuck \<Rightarrow> Stuck
      | Throw e st1 \<Rightarrow> Throw e st1
      | Return index st1 \<Rightarrow>
          (case filter_fuzzyMatch f g (toLowerCase lower input)
                  (filter (\<lambda>r. \<not> exactMatch lower (text' r) (toLowerCase lower input)) index)
                  (caches st1) of
             None \<Rightarrow> Stuck
           | Some (Inl e, cache, fns) \<Rightarrow> Throw e (st1\<lparr>fuzzyCache := cache, functionProps := fns\<rparr>)
           | Some (Inr kept, cache, fns) \<Rightarrow>
               (case reduce_groups
                       (filter (\<lambda>r. exactMatch lower (text' r) (toLowerCase lower input)) index
                        @ sort_by (compare_fuzzyMatch f g (toLowerCase lower input) (cache, fns))
                            kept) [] of
                  Inl e \<Rightarrow> Throw e (st1\<lparr>fuzzyCache := cache, functionProps := fns\<rparr>)
                | Inr grouped \<Rightarrow>
                    Return ()
                      (st1\<lparr>fuzzyCache := cache, functionProps := fns,
                          matchCache_query := toLowerCase lower input,
                          matchCache_results :=
                            filter (\<lambda>r. exactMatch lower (text' r) (toLowerCase lower input)) index
                            @ sort_by
                                (compare_fuzzyMatch f g (toLowerCase lower input) (cache, fns))
                                kept,
                          resultsView := for_in grouped\<rparr>))))"
  unfolding search_def Let_def filter_not_in_filter caches_def by (rule refl)

text \<open>
  The filter and the sort of \<open>search\<close>, in terms of the values: what is kept, and
  that the caches give the same values afterwards.
\<close>

lemma search_matches:
  assumes "filter_fuzzyMatch f g q (filter (\<lambda>r. \<not> exactMatch lower (text' r) q) index) c
             = Some (Inr kept, c')"
  shows "filter (\<lambda>r. exactMatch lower (text' r) q) index
           @ sort_by (compare_fuzzyMatch f g q c') kept
         = matches_of lower f g q c index"
    and "list_all (\<lambda>r. scorable g c (text' r) q)
           (filter (\<lambda>r. \<not> exactMatch lower (text' r) q) index)"
    and "\<And>a b. fuzzy_value f g c' a b = fuzzy_value f g c a b"
    and "\<And>a b. scorable g c' a b = scorable g c a b"
proof -
  let ?cands = "filter (\<lambda>r. \<not> exactMatch lower (text' r) q) index"
  note F = filter_fuzzyMatch_Some [OF assms]
  show sc: "list_all (\<lambda>r. scorable g c (text' r) q) ?cands"
    using F by simp
  show val: "\<And>a b. fuzzy_value f g c' a b = fuzzy_value f g c a b"
    using F by simp
  show sc': "\<And>a b. scorable g c' a b = scorable g c a b"
    using F by simp
  have kept: "kept = filter (\<lambda>r. truthy (fuzzy_value f g c (text' r) q)) ?cands"
    using F by simp
  have "list_all (\<lambda>r. scorable g c' (text' r) q) kept"
    using sc by (simp add: kept sc' list_all_iff)
  then have "sort_by (compare_fuzzyMatch f g q c') kept
      = sort_by (\<lambda>x y. js_minus (fuzzy_value f g c' (text' x) q)
                               (fuzzy_value f g c' (text' y) q)) kept"
    by (rule sort_compare_fuzzyMatch)
  then show "filter (\<lambda>r. exactMatch lower (text' r) q) index
        @ sort_by (compare_fuzzyMatch f g q c') kept
      = matches_of lower f g q c index"
    by (simp add: matches_of_def kept val)
qed

text \<open>What a returning call of \<open>search\<close> has done.\<close>

lemma search_Return:
  assumes "search lower f g net input st = Return () st'"
  shows "\<exists>index st1 cache fns grouped.
      search_index net (toLowerCase lower input) st = Return index st1
    \<and> list_all (\<lambda>r. scorable g (caches st) (text' r) (toLowerCase lower input))
         (filter (\<lambda>r. \<not> exactMatch lower (text' r) (toLowerCase lower input)) index)
    \<and> (\<forall>a b. fuzzy_value f g (cache, fns) a b = fuzzy_value f g (caches st) a b)
    \<and> (\<forall>a b. scorable g (cache, fns) a b = scorable g (caches st) a b)
    \<and> reduce_groups (matches_of lower f g (toLowerCase lower input) (caches st) index) []
        = Inr grouped
    \<and> st' = st1\<lparr>fuzzyCache := cache, functionProps := fns,
                matchCache_query := toLowerCase lower input,
                matchCache_results :=
                  matches_of lower f g (toLowerCase lower input) (caches st) index,
                resultsView := for_in grouped\<rparr>"
proof -
  let ?q = "toLowerCase lower input"
  from assms obtain index st1 where
    pool: "search_index net ?q st = Return index st1"
    by (auto simp: search_unfold split: outcome.splits)
  let ?cands = "filter (\<lambda>r. \<not> exactMatch lower (text' r) ?q) index"
  from assms pool obtain kept cache fns where
    filt: "filter_fuzzyMatch f g ?q ?cands (caches st1) = Some (Inr kept, cache, fns)"
    by (auto simp: search_unfold split: option.splits sum.splits)
  have c1: "caches st1 = caches st"
    using search_index_frame [OF pool] by simp
  note M = search_matches [OF filt [unfolded c1]]
  from assms pool filt obtain grouped where
    "reduce_groups (matches_of lower f g ?q (caches st) index) [] = Inr grouped"
    "st' = st1\<lparr>fuzzyCache := cache, functionProps := fns, matchCache_query := ?q,
               matchCache_results := matches_of lower f g ?q (caches st) index,
               resultsView := for_in grouped\<rparr>"
    by (auto simp: search_unfold M(1) split: sum.splits)
  with pool M(2,3,4) show ?thesis by blast
qed


section \<open>Search: one call\<close>

lemmas run_search =
  search_def search_index_def fetchIndex_def fetchIndex_start_def fetchIndex_resume_def
  initial_def exactMatch_def toLowerCase_def ascii_lower_def lower_char_def fuzzyMatch_def
  fuzzyMatch_row_def fuzzyMatch_function_def get_property_def inherited_def proto_keys_def
  compare_fuzzyMatch_def sort_by_def for_in_def is_index_def array_index_def digit_of_def
  index_value_def entry_def Let_def

lemma fetchIndex_Return:
  "fetchIndex net st = Return entries st' \<Longrightarrow> entries = indexCache st'"
  by (cases "indexCache st = []")
     (auto simp: fetchIndex_cold fetchIndex_cached split: response.splits)

lemma matches_of_empty_query: "matches_of lower f g [] c index = index"
  by (simp add: matches_of_def exactMatch_Nil sort_by_def)

text \<open>
  C6 (amended). For the empty query, when the index is there (cached, or fetched by
  this call) and no page entry has a section named like a member of
  \<open>Object.prototype\<close>, \<open>search\<close> returns, and its result list is exactly the entries
  of the index whose type is \<open>page\<close>, in index order. Nothing else changes but the
  rendered sections, which are the grouping of these entries.
\<close>

theorem search_empty_query:
  assumes "fetchIndex net st = Return entries st1"
    and "list_all (\<lambda>r. \<not> inherited (section' r)) (filter (\<lambda>r. type r = Page) entries)"
  shows "search lower f g net [] st =
       Return ()
         (st1\<lparr>matchCache_query := [],
              matchCache_results := filter (\<lambda>r. type r = Page) entries,
              resultsView := for_in (grouping (filter (\<lambda>r. type r = Page) entries))\<rparr>)
     \<and> indexCache st1 = entries"
proof -
  let ?pages = "filter (\<lambda>r. type r = Page) entries"
  have pool: "search_index net (toLowerCase lower []) st = Return ?pages st1"
    using assms(1) by (simp add: search_index_def toLowerCase_Nil)
  have sc: "list_all (\<lambda>r. scorable g (caches st) (text' r) (toLowerCase lower []))
      (filter (\<lambda>r. \<not> exactMatch lower (text' r) (toLowerCase lower [])) ?pages)"
    by (simp add: toLowerCase_Nil exactMatch_Nil)
  have "reduce_groups ?pages (grouping []) = Inr (grouping ([] @ ?pages))"
    using assms(2) by (rule reduce_groups_grouping)
  then have grp: "reduce_groups (matches_of lower f g (toLowerCase lower []) (caches st) ?pages) []
      = Inr (grouping ?pages)"
    by (simp add: toLowerCase_Nil matches_of_empty_query grouping_def)
  have "search lower f g net [] st =
      Return () (st1\<lparr>matchCache_query := [], matchCache_results := ?pages,
                     resultsView := for_in (grouping ?pages)\<rparr>)"
    using pool grp
    by (simp add: search_unfold toLowerCase_Nil exactMatch_Nil matches_of_empty_query
        caches_def sort_by_def)
  moreover have "indexCache st1 = entries"
    using fetchIndex_Return [OF assms(1)] by simp
  ultimately show ?thesis by simp
qed

theorem search_empty_query_witness:
  "fetchIndex
     (\<lambda>n. Json [entry ''/a'' Page ''Guides'' ''Install'', entry ''/b'' Heading ''Guides'' ''Steps''])
     initial
   = Return [entry ''/a'' Page ''Guides'' ''Install'', entry ''/b'' Heading ''Guides'' ''Steps'']
       (initial\<lparr>indexCache := [entry ''/a'' Page ''Guides'' ''Install'',
                                entry ''/b'' Heading ''Guides'' ''Steps''],
                requests := 1\<rparr>)
   \<and> search ascii_lower (\<lambda>a b. 0) (\<lambda>a b. Absent)
       (\<lambda>n. Json [entry ''/a'' Page ''Guides'' ''Install'', entry ''/b'' Heading ''Guides'' ''Steps''])
       [] initial
     = Return ()
         (initial\<lparr>indexCache := [entry ''/a'' Page ''Guides'' ''Install'',
                                  entry ''/b'' Heading ''Guides'' ''Steps''],
                  requests := 1,
                  matchCache_results := [entry ''/a'' Page ''Guides'' ''Install''],
                  resultsView := [(''Guides'', [entry ''/a'' Page ''Guides'' ''Install''])]\<rparr>)"
proof -
  let ?entries = "[entry ''/a'' Page ''Guides'' ''Install'', entry ''/b'' Heading ''Guides'' ''Steps'']"
  let ?net = "\<lambda>n::nat. Json ?entries"
  let ?st1 = "initial\<lparr>indexCache := ?entries, requests := 1\<rparr>"
  have fetch: "fetchIndex ?net initial = Return ?entries ?st1"
    by (simp add: fetchIndex_def fetchIndex_start_def fetchIndex_resume_def initial_def)
  have plain: "list_all (\<lambda>r. \<not> inherited (section' r)) (filter (\<lambda>r. type r = Page) ?entries)"
    by (simp add: entry_def inherited_def proto_keys_def)
  have pages: "filter (\<lambda>r. type r = Page) ?entries = [entry ''/a'' Page ''Guides'' ''Install'']"
    by (simp add: entry_def)
  have view: "for_in (grouping [entry ''/a'' Page ''Guides'' ''Install''])
      = [(''Guides'', [entry ''/a'' Page ''Guides'' ''Install''])]"
    by (simp add: grouping_def entry_def for_in_def is_index_def array_index_def digit_of_def)
  note call = search_empty_query [OF fetch plain, of ascii_lower "\<lambda>a b. 0" "\<lambda>a b. Absent",
      unfolded pages view]
  from call fetch show ?thesis
    by (simp add: initial_def)
qed

text \<open>
  The claim as stated fails in two ways: the fetch can fail, and then \<open>search\<close> throws
  what \<open>fetchIndex\<close> throws; and for a page entry in the section \<open>constructor\<close> the
  grouping throws, so that no result list is stored or rendered.
\<close>

theorem search_empty_query_counterexample:
  "search ascii_lower (\<lambda>a b. 0) (\<lambda>a b. Absent) (\<lambda>n. Malformed) [] initial
     = Throw FetchError (initial\<lparr>requests := 1\<rparr>)
   \<and> search ascii_lower (\<lambda>a b. 0) (\<lambda>a b. Absent)
       (\<lambda>n. Json [entry ''/a'' Page ''constructor'' ''Install'']) [] initial
     = Throw TypeError
         (initial\<lparr>indexCache := [entry ''/a'' Page ''constructor'' ''Install''], requests := 1\<rparr>)"
  by (simp add: run_search)

text \<open>
  C3 (amended). For a non-empty query the candidate pool is the cached result list when
  that list is not empty, the cached query is not empty and the new query starts with
  it; in every other case it is what \<open>fetchIndex\<close> returns, which is the index cache
  itself, without a request, once that holds entries.
\<close>

theorem search_index_pool:
  assumes "toLowerCase lower input \<noteq> []"
  shows "search_index net (toLowerCase lower input) st =
     (if matchCache_results st \<noteq> [] \<and> matchCache_query st \<noteq> []
         \<and> startsWith (toLowerCase lower input) (matchCache_query st)
      then Return (matchCache_results st) st
      else if indexCache st \<noteq> [] then Return (indexCache st) st
      else fetchIndex net st)"
  using assms by (simp add: search_index_def fetchIndex_cached)

theorem search_index_pool_witness:
  "toLowerCase ascii_lower ''Inst'' \<noteq> []
   \<and> search_index (\<lambda>n. NetworkError) (toLowerCase ascii_lower ''Inst'')
       \<lparr>indexCache = [entry ''/a'' Page ''Guides'' ''Install'', entry ''/b'' Page ''Guides'' ''Insert''],
        fuzzyCache = [], functionProps = [], matchCache_query = ''ins'',
        matchCache_results = [entry ''/a'' Page ''Guides'' ''Install''],
        requests = 1, resultsView = []\<rparr>
     = Return [entry ''/a'' Page ''Guides'' ''Install'']
       \<lparr>indexCache = [entry ''/a'' Page ''Guides'' ''Install'', entry ''/b'' Page ''Guides'' ''Insert''],
        fuzzyCache = [], functionProps = [], matchCache_query = ''ins'',
        matchCache_results = [entry ''/a'' Page ''Guides'' ''Install''],
        requests = 1, resultsView = []\<rparr>"
proof -
  have q: "toLowerCase ascii_lower ''Inst'' \<noteq> []"
    by (simp add: toLowerCase_def ascii_lower_def)
  have low: "toLowerCase ascii_lower ''Inst'' = ''inst''"
    by (simp add: toLowerCase_def ascii_lower_def lower_char_def)
  show ?thesis
    using q search_index_pool [OF q, of "\<lambda>n. NetworkError"
        "\<lparr>indexCache = [entry ''/a'' Page ''Guides'' ''Install'',
                       entry ''/b'' Page ''Guides'' ''Insert''],
         fuzzyCache = [], functionProps = [], matchCache_query = ''ins'',
         matchCache_results = [entry ''/a'' Page ''Guides'' ''Install''],
         requests = 1, resultsView = []\<rparr>"]
    by (simp add: low)
qed

text \<open>
  The claim fails when the cached result list is empty: after the query \<open>x\<close> has found
  nothing, the query \<open>xsearch\<close> starts with the cached query, and still its pool is the
  full index and not the cached (empty) list.
\<close>

theorem search_index_empty_results_counterexample:
  "search ascii_lower (\<lambda>a b. 0) (\<lambda>a b. Absent) (\<lambda>n. Json [entry ''/a'' Page ''Guides'' ''search'']) ''x'' initial
     = Return ()
         \<lparr>indexCache = [entry ''/a'' Page ''Guides'' ''search''],
          fuzzyCache = [(''search'', [(''x'', 0)])], functionProps = [], matchCache_query = ''x'',
          matchCache_results = [], requests = 1, resultsView = []\<rparr>
   \<and> startsWith ''xsearch'' ''x''
   \<and> search_index (\<lambda>n. Json [entry ''/a'' Page ''Guides'' ''search'']) ''xsearch''
         \<lparr>indexCache = [entry ''/a'' Page ''Guides'' ''search''],
          fuzzyCache = [(''search'', [(''x'', 0)])], functionProps = [], matchCache_query = ''x'',
          matchCache_results = [], requests = 1, resultsView = []\<rparr>
     = Return [entry ''/a'' Page ''Guides'' ''search'']
         \<lparr>indexCache = [entry ''/a'' Page ''Guides'' ''search''],
          fuzzyCache = [(''search'', [(''x'', 0)])], functionProps = [], matchCache_query = ''x'',
          matchCache_results = [], requests = 1, resultsView = []\<rparr>"
  by (simp add: run_search)








text \<open>A call that throws has not reached the assignments to \<open>_matchCache\<close>.\<close>

lemma search_Throw_frame:
  assumes "search lower f g net input st = Throw e st'"
  shows "matchCache_query st' = matchCache_query st
       \<and> matchCache_results st' = matchCache_results st
       \<and> resultsView st' = resultsView st"
proof (cases "search_index net (toLowerCase lower input) st")
  case (Return index st1)
  with assms search_index_frame [OF Return] show ?thesis
    by (auto simp: search_unfold split: option.splits sum.splits)
next
  case (Throw e1 st1)
  then have "st1 = st\<lparr>requests := Suc (requests st)\<rparr>"
    by (cases "indexCache st = []")
       (auto simp: search_index_def fetchIndex_cold fetchIndex_cached
          split: if_splits response.splits outcome.splits)
  with assms Throw show ?thesis
    by (auto simp: search_unfold)
next
  case Stuck
  with assms show ?thesis by (simp add: search_unfold)
qed

lemma set_matches_of: "set (matches_of lower f g q c index) \<subseteq> set index"
  by (auto simp: matches_of_def set_sort_by)




text \<open>
  What the cached pool means for a call: a query that narrows a non-empty previous
  result makes no request, leaves the index alone and returns entries of the previous
  result only.
\<close>

lemma search_narrows:
  assumes "search lower f g net input st = Return () st'"
    and "toLowerCase lower input \<noteq> []"
    and "matchCache_results st \<noteq> []" and "matchCache_query st \<noteq> []"
    and "startsWith (toLowerCase lower input) (matchCache_query st)"
  shows "set (matchCache_results st') \<subseteq> set (matchCache_results st)
       \<and> requests st' = requests st \<and> indexCache st' = indexCache st"
proof -
  from search_Return [OF assms(1)] obtain index st1 cache fns grouped where
    pool: "search_index net (toLowerCase lower input) st = Return index st1"
    and st': "st' = st1\<lparr>fuzzyCache := cache, functionProps := fns, matchCache_query := toLowerCase lower input,
                matchCache_results := matches_of lower f g (toLowerCase lower input) (caches st) index,
                resultsView := for_in grouped\<rparr>"
    by blast
  from pool assms(2-5) have "index = matchCache_results st" "st1 = st"
    by (auto simp: search_index_def)
  then show ?thesis
    using set_matches_of [of lower f g "toLowerCase lower input" "caches st" index]
    by (simp add: st')
qed

section \<open>Search: repeating a query\<close>




section \<open>Search: exact and fuzzy matches\<close>

lemma coherent_Nil: "coherent f []"
  by (simp add: coherent_def)

lemma coherent_row:
  "coherent f c \<Longrightarrow> map_of c a = Some row \<Longrightarrow> list_all (\<lambda>(b, v). v = f a b) row"
proof -
  assume c: "coherent f c" and m: "map_of c a = Some row"
  from m have "(a, row) \<in> set c"
    by (rule map_of_SomeD)
  with c have "(\<lambda>(a, row). list_all (\<lambda>(b, v). v = f a b) row) (a, row)"
    unfolding coherent_def list_all_iff by blast
  then show ?thesis by simp
qed

lemma coherent_map_of:
  "coherent f c \<Longrightarrow> map_of c a = Some row \<Longrightarrow> map_of row b = Some v \<Longrightarrow> v = f a b"
proof -
  assume c: "coherent f c" and m: "map_of c a = Some row" and r: "map_of row b = Some v"
  from c m have "list_all (\<lambda>(b, v). v = f a b) row"
    by (rule coherent_row)
  moreover from r have "(b, v) \<in> set row"
    by (rule map_of_SomeD)
  ultimately show ?thesis
    unfolding list_all_iff by blast
qed

lemma list_all_set_property:
  "list_all P obj \<Longrightarrow> P (k, v) \<Longrightarrow> list_all P (set_property obj k v)"
  by (induction obj) auto

lemma coherent_set_property:
  "coherent f c \<Longrightarrow> list_all (\<lambda>(b, v). v = f a b) row \<Longrightarrow> coherent f (set_property c a row)"
  unfolding coherent_def by (rule list_all_set_property) auto

lemma fuzzyMatch_coherent:
  assumes "fuzzyMatch f g a b c = Some (Inr v, c')" and "coherent f (fst c)"
  shows "coherent f (fst c')"
proof -
  obtain cache fns where c: "c = (cache, fns)" by (cases c)
  have co: "coherent f cache"
    using assms(2) by (simp add: c)
  show ?thesis
  proof (cases "get_property cache a")
    case Undefined
    have "coherent f (set_property cache a [])"
      using co by (rule coherent_set_property) simp
    moreover have "coherent f (set_property (set_property cache a []) a [(b, f a b)])"
      using calculation by (rule coherent_set_property) simp
    ultimately show ?thesis
      using assms(1) Undefined unfolding c
      by (auto simp: fuzzyMatch_Undefined split: property.splits)
  next
    case (Own row)
    then have "map_of cache a = Some row"
      by (auto simp: get_property_def split: option.splits if_splits)
    with co have "list_all (\<lambda>(b, v). v = f a b) row"
      by (rule coherent_row)
    then have "list_all (\<lambda>(b, v). v = f a b) (set_property row b (f a b))"
      by (rule list_all_set_property) simp
    with co have "coherent f (set_property cache a (set_property row b (f a b)))"
      by (rule coherent_set_property)
    then show ?thesis
      using assms(1) Own co unfolding c
      by (auto simp: fuzzyMatch_Own split: property.splits)
  next
    case Inherited
    then show ?thesis
      using assms(1) co unfolding c
      by (auto simp: fuzzyMatch_Inherited split: if_splits option.splits builtin_read.splits)
  qed
qed

lemma filter_fuzzyMatch_coherent:
  "filter_fuzzyMatch f g q rs c = Some (Inr kept, c') \<Longrightarrow> coherent f (fst c) \<Longrightarrow> coherent f (fst c')"
proof (induction rs arbitrary: c kept c')
  case Nil
  then show ?case by simp
next
  case (Cons r rs)
  from Cons.prems(1) obtain v c1 kept1 where
    "fuzzyMatch f g (text' r) q c = Some (Inr v, c1)"
    "filter_fuzzyMatch f g q rs c1 = Some (Inr kept1, c')"
    by (rule filter_fuzzyMatch_Cons)
  then show ?case
    using Cons.IH Cons.prems(2) fuzzyMatch_coherent by blast
qed

lemma search_coherent:
  assumes "search lower f g net input st = Return () st'" and "coherent f (fuzzyCache st)"
  shows "coherent f (fuzzyCache st')"
proof -
  let ?q = "toLowerCase lower input"
  from assms(1) obtain index st1 where
    pool: "search_index net ?q st = Return index st1"
    by (auto simp: search_unfold split: outcome.splits)
  with assms(1) obtain kept cache fns where
    filt: "filter_fuzzyMatch f g ?q
             (filter (\<lambda>r. \<not> exactMatch lower (text' r) ?q) index)
             (caches st1) = Some (Inr kept, cache, fns)"
    and c: "fuzzyCache st' = cache"
    by (auto simp: search_unfold split: option.splits sum.splits)
  have "coherent f (fst (caches st1))"
    using search_index_frame [OF pool] assms(2) by (simp add: caches_def)
  with filt have "coherent f (fst (cache, fns))"
    by (rule filter_fuzzyMatch_coherent)
  then show ?thesis
    by (simp add: c)
qed

lemma fuzzy_value_coherent:
  assumes "coherent f (fst c)" and "\<not> inherited a" and "\<not> inherited b"
  shows "fuzzy_value f g c a b = Number (f a b)"
  using assms
  by (auto simp: fuzzy_value_def row_value_def get_property_def dest: coherent_map_of
      split: option.splits)

text \<open>
  With a coherent cache, a query that is not an inherited name and a pool without such
  a name among its texts, the result list is the one the specification describes: the
  exact matches in pool order, then the entries with a non-zero similarity, by
  ascending similarity.
\<close>

lemma matches_of_similarity:
  assumes "coherent f (fst c)" and "\<not> inherited q"
    and "list_all (\<lambda>r. \<not> inherited (text' r)) index"
  shows "matches_of lower f g q c index =
     filter (\<lambda>r. exactMatch lower (text' r) q) index
     @ sort_key (\<lambda>r. f (text' r) q)
         (filter (\<lambda>r. f (text' r) q \<noteq> 0) (filter (\<lambda>r. \<not> exactMatch lower (text' r) q) index))"
proof -
  have val: "fuzzy_value f g c (text' r) q = Number (f (text' r) q)" if "r \<in> set index" for r
    using assms that by (intro fuzzy_value_coherent) (auto simp: list_all_iff)
  let ?cands = "filter (\<lambda>r. \<not> exactMatch lower (text' r) q) index"
  have kept: "filter (\<lambda>r. truthy (fuzzy_value f g c (text' r) q)) ?cands
      = filter (\<lambda>r. f (text' r) q \<noteq> 0) ?cands"
    by (rule filter_cong) (simp_all add: val)
  have "sort_by (\<lambda>x y. js_minus (fuzzy_value f g c (text' x) q) (fuzzy_value f g c (text' y) q))
          (filter (\<lambda>r. f (text' r) q \<noteq> 0) ?cands)
      = sort_by (\<lambda>x y. Some (f (text' x) q - f (text' y) q)) (filter (\<lambda>r. f (text' r) q \<noteq> 0) ?cands)"
    by (rule sort_by_cong) (simp add: val)
  then show ?thesis
    unfolding matches_of_def kept sort_by_sort_key by simp
qed

lemma search_similarity:
  assumes "search lower f g net input st = Return () st'"
    and "coherent f (fuzzyCache st)" and "\<not> inherited (toLowerCase lower input)"
  shows "\<exists>index st1. search_index net (toLowerCase lower input) st = Return index st1
     \<and> (list_all (\<lambda>r. \<not> inherited (text' r)) index \<longrightarrow>
        matchCache_results st' =
         filter (\<lambda>r. exactMatch lower (text' r) (toLowerCase lower input)) index
         @ sort_key (\<lambda>r. f (text' r) (toLowerCase lower input))
             (filter (\<lambda>r. f (text' r) (toLowerCase lower input) \<noteq> 0)
                (filter (\<lambda>r. \<not> exactMatch lower (text' r) (toLowerCase lower input)) index)))"
proof -
  let ?q = "toLowerCase lower input"
  from search_Return [OF assms(1)] obtain index st1 cache fns grouped where
    pool: "search_index net ?q st = Return index st1"
    and st': "st' = st1\<lparr>fuzzyCache := cache, functionProps := fns, matchCache_query := ?q,
                matchCache_results := matches_of lower f g ?q (caches st) index,
                resultsView := for_in grouped\<rparr>"
    by blast
  have "coherent f (fst (caches st))"
    using assms(2) by (simp add: caches_def)
  from matches_of_similarity [OF this assms(3)] pool show ?thesis
    by (auto simp: st')
qed

text \<open>
  C1. For the query \<open>constructor\<close> the read \<open>_fuzzyCache[a][b]\<close> finds the inherited
  \<open>Object.prototype.constructor\<close>, which is not \<open>undefined\<close>: no score is computed and
  the truthy function is returned. The entry below does not contain the query and its
  similarity is 0, and it is in the result list.
\<close>

theorem search_inherited_query_classes:
  "search ascii_lower (\<lambda>a b. 0) (\<lambda>a b. Absent) (\<lambda>n. Json [entry ''/a'' Page ''Guides'' ''Install'']) ''constructor'' initial
   = Return ()
     \<lparr>indexCache = [entry ''/a'' Page ''Guides'' ''Install''],
      fuzzyCache = [(''Install'', [])], functionProps = [], matchCache_query = ''constructor'',
      matchCache_results = [entry ''/a'' Page ''Guides'' ''Install''], requests = 1,
      resultsView = [(''Guides'', [entry ''/a'' Page ''Guides'' ''Install''])]\<rparr>
   \<and> \<not> exactMatch ascii_lower ''Install'' ''constructor''"
  by (simp add: run_search)

text \<open>
  C2. For the same query the comparator subtracts two functions, which is \<open>NaN\<close>, so
  the sort leaves the pool order: the entry with similarity 9/10 stays before the one
  with similarity 1/2.
\<close>

theorem search_inherited_query_order:
  "search ascii_lower (\<lambda>a b. if a = ''Install'' then 9 / 10 else 1 / 2) (\<lambda>a b. Absent)
     (\<lambda>n. Json [entry ''/a'' Page ''Guides'' ''Install'', entry ''/b'' Page ''Guides'' ''Usage''])
     ''constructor'' initial
   = Return ()
     \<lparr>indexCache = [entry ''/a'' Page ''Guides'' ''Install'', entry ''/b'' Page ''Guides'' ''Usage''],
      fuzzyCache = [(''Install'', []), (''Usage'', [])], functionProps = [], matchCache_query = ''constructor'',
      matchCache_results =
        [entry ''/a'' Page ''Guides'' ''Install'', entry ''/b'' Page ''Guides'' ''Usage''],
      requests = 1,
      resultsView =
        [(''Guides'', [entry ''/a'' Page ''Guides'' ''Install'', entry ''/b'' Page ''Guides'' ''Usage''])]\<rparr>"
  by (simp add: run_search)

section \<open>Search: texts named like a member of \<open>Object.prototype\<close>\<close>

text \<open>
  An entry whose text is \<open>toString\<close> is scored on the built-in function: the score is
  stored on the function, not in a row of the cache, and \<open>search\<close> returns.
\<close>

lemma search_builtin_text:
  "search ascii_lower (\<lambda>a b. 1 / 2) (\<lambda>a b. Absent)
     (\<lambda>n. Json [entry ''/a'' Page ''Guides'' ''toString'']) ''x'' initial
   = Return ()
     \<lparr>indexCache = [entry ''/a'' Page ''Guides'' ''toString''], fuzzyCache = [],
      functionProps = [(''toString'', [(''x'', 1 / 2)])], matchCache_query = ''x'',
      matchCache_results = [entry ''/a'' Page ''Guides'' ''toString''], requests = 1,
      resultsView = [(''Guides'', [entry ''/a'' Page ''Guides'' ''toString''])]\<rparr>"
  by (simp add: run_search)

text \<open>
  When the read of the built-in function throws, \<open>search\<close> throws in the filter: the
  entries before it have been scored, and nothing is stored or rendered.
\<close>

lemma search_builtin_read_throws:
  "search ascii_lower (\<lambda>a b. 1 / 2) (\<lambda>a b. if b = ''caller'' then Raises else Absent)
     (\<lambda>n. Json [entry ''/a'' Page ''Guides'' ''Install'', entry ''/b'' Page ''Guides'' ''toString''])
     ''caller'' initial
   = Throw TypeError
     \<lparr>indexCache = [entry ''/a'' Page ''Guides'' ''Install'', entry ''/b'' Page ''Guides'' ''toString''],
      fuzzyCache = [(''Install'', [(''caller'', 1 / 2)])], functionProps = [],
      matchCache_query = [], matchCache_results = [], requests = 1, resultsView = []\<rparr>"
  by (simp add: run_search)

section \<open>Search: the calls outside the model\<close>

text \<open>
  \<open>fuzzyMatch\<close> leaves the model only where it would write to \<open>Object.prototype\<close>, and
  \<open>search\<close> only when it scores an entry whose text is \<open>__proto__\<close> against a query
  that is not an inherited name.
\<close>

lemma fuzzyMatch_outside:
  assumes "fuzzyMatch f g a b c = None"
  shows "a = ''__proto__'' \<and> \<not> inherited b"
proof -
  obtain cache fns where c: "c = (cache, fns)" by (cases c)
  show ?thesis
  proof (cases "get_property cache a")
    case Undefined
    with assms show ?thesis
      unfolding c by (simp add: fuzzyMatch_Undefined)
  next
    case (Own row)
    with assms show ?thesis
      unfolding c by (simp add: fuzzyMatch_Own)
  next
    case Inherited
    with assms show ?thesis
      unfolding c by (simp add: fuzzyMatch_Inherited split: if_splits)
  qed
qed

lemma filter_fuzzyMatch_outside:
  "filter_fuzzyMatch f g q rs c = None \<Longrightarrow>
   (\<exists>r \<in> set rs. text' r = ''__proto__'') \<and> \<not> inherited q"
proof (induction rs arbitrary: c)
  case Nil
  then show ?case by simp
next
  case (Cons r rs)
  show ?case
  proof (cases "fuzzyMatch f g (text' r) q c")
    case None
    from fuzzyMatch_outside [OF None] show ?thesis
      by simp
  next
    case (Some res)
    obtain x c1 where res: "res = (x, c1)" by (cases res)
    show ?thesis
    proof (cases x)
      case (Inl e)
      with Cons.prems Some res show ?thesis by simp
    next
      case (Inr v)
      with Cons.prems Some res have "filter_fuzzyMatch f g q rs c1 = None"
        by (auto split: option.splits sum.splits)
      from Cons.IH [OF this] show ?thesis by simp
    qed
  qed
qed

lemma search_index_returns_or_throws: "search_index net q st \<noteq> Stuck"
  by (cases "indexCache st = []")
     (auto simp: search_index_def fetchIndex_cold fetchIndex_cached
        split: response.splits outcome.splits)

lemma search_outside:
  assumes "search lower f g net input st = Stuck"
  shows "\<not> inherited (toLowerCase lower input)
       \<and> (\<exists>index st1. search_index net (toLowerCase lower input) st = Return index st1
            \<and> (\<exists>r \<in> set index. text' r = ''__proto__''
                  \<and> \<not> exactMatch lower (text' r) (toLowerCase lower input)))"
proof -
  let ?q = "toLowerCase lower input"
  from assms search_index_returns_or_throws [of net ?q st] obtain index st1 where
    pool: "search_index net ?q st = Return index st1"
    by (cases "search_index net ?q st") (auto simp: search_unfold)
  with assms have
    "filter_fuzzyMatch f g ?q (filter (\<lambda>r. \<not> exactMatch lower (text' r) ?q) index) (caches st1)
       = None"
    by (auto simp: search_unfold split: option.splits sum.splits)
  from filter_fuzzyMatch_outside [OF this] pool show ?thesis
    by auto
qed

end
